theory Spec2Isabelle
  imports Complex_Main "HOL-Library.Log_Nat" "HOL-Library.Word"
begin

section \<open>Python values used by the pipeline\<close>

text \<open>
  The exceptions the modelled code can raise. \<open>process_product_photo\<close> has no
  \<open>raise\<close> statement of its own; the only failure of the modelled slice is the
  true division \<open>target_h / orig_h\<close> at a zero height, and the dictionary lookup
  \<open>bg_map[manual_bg_choice]\<close> of the UI shell.
\<close>

datatype error = ZeroDivisionError | KeyError

subsection \<open>Binary64 arithmetic\<close>

text \<open>
  Python floats are IEEE-754 binary64 numbers. A float is modelled by the rational it
  denotes, and every operation rounds its exact result to the nearest number with a
  53-bit significand, ties to even. The exponent range is not bounded (no overflow to
  infinity, no subnormals): image sizes stay far below \<open>2^1023\<close>. Only non-negative
  values occur in the pipeline; \<open>f64\<close> sends the others to \<open>0\<close>.
\<close>

definition ilog2 :: "rat \<Rightarrow> int" where
  \<comment> \<open>for \<open>x > 0\<close>: the \<open>k\<close> with \<open>2^k \<le> x < 2^(k+1)\<close>\<close>
  "ilog2 x = (let (a, b) = quotient_of x; d = bitlen a - bitlen b
              in if 2 powi d \<le> x then d else d - 1)"

definition round_half_even :: "rat \<Rightarrow> int" where
  "round_half_even x =
     (let n = \<lfloor>x\<rfloor>; r = x - of_int n
      in if r < 1/2 then n else if 1/2 < r then n + 1 else if even n then n else n + 1)"

definition f64 :: "rat \<Rightarrow> rat" where
  "f64 x = (if x \<le> 0 then 0
            else let e = ilog2 x - 52
                 in of_int (round_half_even (x * 2 powi (- e))) * 2 powi e)"

definition f64_of_int :: "int \<Rightarrow> rat" where
  \<comment> \<open>the conversion of a Python int in \<open>int * float\<close>\<close>
  "f64_of_int n = f64 (of_int n)"

definition f64_mul :: "rat \<Rightarrow> rat \<Rightarrow> rat" where
  "f64_mul a b = f64 (a * b)"

definition int_truediv :: "int \<Rightarrow> int \<Rightarrow> error + rat" where
  \<comment> \<open>Python's \<open>a / b\<close> on two ints: the correctly rounded quotient\<close>
  "int_truediv a b = (if b = 0 then Inl ZeroDivisionError else Inr (f64 (of_int a / of_int b)))"

definition py_int :: "rat \<Rightarrow> int" where
  \<comment> \<open>Python's \<open>int(x)\<close> on a float: truncation towards zero\<close>
  "py_int x = (if 0 \<le> x then \<lfloor>x\<rfloor> else \<lceil>x\<rceil>)"

subsection \<open>Strings\<close>

text \<open>
  The style names and colour names are ASCII; \<open>lower\<close> and \<open>capitalize\<close> are modelled
  on the ASCII letters.
\<close>

fun starts_with :: "string \<Rightarrow> string \<Rightarrow> bool" where
  "starts_with s [] = True"
| "starts_with [] (k # ks) = False"
| "starts_with (c # cs) (k # ks) = (c = k \<and> starts_with cs ks)"

fun contains :: "string \<Rightarrow> string \<Rightarrow> bool" where
  \<comment> \<open>\<open>contains k s\<close> is Python's \<open>k in s\<close> on two strings\<close>
  "contains k [] = (k = [])"
| "contains k (c # cs) = (starts_with (c # cs) k \<or> contains k cs)"

definition lower_char :: "char \<Rightarrow> char" where
  "lower_char c = (let n = (of_char c :: nat) in if 65 \<le> n \<and> n \<le> 90 then char_of (n + 32) else c)"

definition upper_char :: "char \<Rightarrow> char" where
  "upper_char c = (let n = (of_char c :: nat) in if 97 \<le> n \<and> n \<le> 122 then char_of (n - 32) else c)"

definition lower :: "string \<Rightarrow> string" where
  "lower s = map lower_char s"

fun capitalize :: "string \<Rightarrow> string" where
  "capitalize [] = []"
| "capitalize (c # cs) = upper_char c # map lower_char cs"

section \<open>The style catalog and the staging flags\<close>

text \<open>
  \<open>image_bg_map\<close> of \<open>process_product_photo\<close> (processor.py, lines 324-336), in the
  order of the source.
\<close>

definition image_bg_map :: "(string \<times> string) list" where
  "image_bg_map =
     [(''Realistic Studio'', ''studio_floor''),
      (''Wooden Floor'', ''wood_floor''),
      (''Marble Floor'', ''marble_floor''),
      (''Grey Marble Floor'', ''grey_marble_floor''),
      (''Premium Dark Marble'', ''premium_dark_marble''),
      (''Premium White Marble'', ''premium_white_marble''),
      (''Midnight Obsidian Marble'', ''obsidian_marble''),
      (''Dark Studio (Flat Lay)'', ''dark_studio_floor''),
      (''Industrial Slate Floor'', ''industrial_slate''),
      (''Natural Daylight Studio'', ''daylight_studio''),
      (''Premium Oak Parquet'', ''premium_parquet'')]"

definition in_image_bg_map :: "string option \<Rightarrow> bool" where
  \<comment> \<open>\<open>manual_bg in image_bg_map\<close>; \<open>None\<close> is not a key\<close>
  "in_image_bg_map manual_bg =
     (case manual_bg of None \<Rightarrow> False | Some s \<Rightarrow> map_of image_bg_map s \<noteq> None)"

definition any_in :: "string list \<Rightarrow> string \<Rightarrow> bool" where
  \<comment> \<open>\<open>any(k in manual_bg for k in ks)\<close>\<close>
  "any_in ks manual_bg = list_ex (\<lambda>k. contains k manual_bg) ks"

text \<open>The flags of lines 343-348 and the dark-background flag of line 396.\<close>

definition is_floor :: "string \<Rightarrow> bool" where
  "is_floor manual_bg = any_in [''Floor'', ''Marble'', ''Studio'', ''Slate'', ''Parquet''] manual_bg"

definition is_marble :: "string \<Rightarrow> bool" where
  "is_marble manual_bg = contains ''Marble'' manual_bg"

definition is_spotlight :: "string \<Rightarrow> bool" where
  "is_spotlight manual_bg = contains ''Obsidian'' manual_bg"

definition is_flat_lay :: "string \<Rightarrow> bool" where
  "is_flat_lay manual_bg = any_in [''Flat Lay'', ''Daylight'', ''Parquet''] manual_bg"

definition is_slate :: "string \<Rightarrow> bool" where
  "is_slate manual_bg = contains ''Slate'' manual_bg"

definition is_daylight :: "string \<Rightarrow> bool" where
  "is_daylight manual_bg = contains ''Daylight'' manual_bg"



section \<open>Rasters\<close>

text \<open>
  A Pillow image: its mode, its size and its pixels, \<open>px im x y\<close> being the pixel of
  column \<open>x\<close> and row \<open>y\<close> (read for \<open>x < width\<close>, \<open>y < height\<close> only). A pixel
  holds four bytes; the alpha byte of an \<open>RGB\<close> image is not part of the image. A
  \<open>plane\<close> is a single-band image of mode \<open>L\<close>.
\<close>

type_synonym byte = "8 word"

record pixel =
  red :: byte
  green :: byte
  blue :: byte
  alpha :: byte

datatype mode = RGB | RGBA

record raster =
  mode :: mode
  width :: nat
  height :: nat
  px :: "nat \<Rightarrow> nat \<Rightarrow> pixel"

record plane =
  pwidth :: nat
  pheight :: nat
  val :: "nat \<Rightarrow> nat \<Rightarrow> byte"

type_synonym box = "nat \<times> nat \<times> nat \<times> nat"

definition has_alpha :: "raster \<Rightarrow> bool" where
  \<comment> \<open>\<open>"A" in image.mode\<close>\<close>
  "has_alpha im = (mode im = RGBA)"

definition size_of :: "raster \<Rightarrow> nat \<times> nat" where
  "size_of im = (width im, height im)"

definition convert_RGBA :: "raster \<Rightarrow> raster" where
  \<comment> \<open>\<open>image.convert("RGBA")\<close>: an image without alpha becomes fully opaque\<close>
  "convert_RGBA im =
     (case mode im of
        RGBA \<Rightarrow> im
      | RGB \<Rightarrow> im\<lparr>mode := RGBA, px := \<lambda>x y. (px im x y)\<lparr>alpha := 255\<rparr>\<rparr>)"

definition convert_RGB :: "raster \<Rightarrow> raster" where
  \<comment> \<open>\<open>image.convert("RGB")\<close>: the alpha band is dropped\<close>
  "convert_RGB im = im\<lparr>mode := RGB, px := \<lambda>x y. (px im x y)\<lparr>alpha := 255\<rparr>\<rparr>"

definition new_image :: "nat \<times> nat \<Rightarrow> pixel \<Rightarrow> raster" where
  \<comment> \<open>\<open>Image.new("RGBA", size, color)\<close>\<close>
  "new_image sz c = \<lparr>mode = RGBA, width = fst sz, height = snd sz, px = \<lambda>x y. c\<rparr>"

definition new_plane :: "nat \<times> nat \<Rightarrow> byte \<Rightarrow> plane" where
  \<comment> \<open>\<open>Image.new("L", size, v)\<close>\<close>
  "new_plane sz v = \<lparr>pwidth = fst sz, pheight = snd sz, val = \<lambda>x y. v\<rparr>"

definition transparent :: pixel where
  "transparent = \<lparr>red = 0, green = 0, blue = 0, alpha = 0\<rparr>"

definition inside :: "int \<times> int \<Rightarrow> nat \<times> nat \<Rightarrow> nat \<Rightarrow> nat \<Rightarrow> bool" where
  \<comment> \<open>the pixel \<open>(x, y)\<close> lies in the region of size \<open>(w, h)\<close> placed at \<open>(ox, oy)\<close>\<close>
  "inside pos sz x y =
     (fst pos \<le> int x \<and> int x < fst pos + int (fst sz) \<and>
      snd pos \<le> int y \<and> int y < snd pos + int (snd sz))"

definition paste :: "raster \<Rightarrow> raster \<Rightarrow> int \<times> int \<Rightarrow> raster" where
  \<comment> \<open>\<open>dst.paste(src, pos)\<close> without a mask: the region of \<open>dst\<close> under \<open>src\<close> is
      overwritten, clipped to \<open>dst\<close>\<close>
  "paste dst src pos =
     dst\<lparr>px := \<lambda>x y. if inside pos (size_of src) x y
                       then px src (nat (int x - fst pos)) (nat (int y - snd pos))
                       else px dst x y\<rparr>"

definition paste_plane :: "plane \<Rightarrow> plane \<Rightarrow> int \<times> int \<Rightarrow> plane" where
  "paste_plane dst src pos =
     dst\<lparr>val := \<lambda>x y. if inside pos (pwidth src, pheight src) x y
                        then val src (nat (int x - fst pos)) (nat (int y - snd pos))
                        else val dst x y\<rparr>"

definition alpha_band :: "raster \<Rightarrow> plane" where
  \<comment> \<open>\<open>image.split()[-1]\<close> of an image with alpha\<close>
  "alpha_band im = \<lparr>pwidth = width im, pheight = height im, val = \<lambda>x y. alpha (px im x y)\<rparr>"

definition putalpha :: "raster \<Rightarrow> plane \<Rightarrow> raster" where
  \<comment> \<open>\<open>image.putalpha(band)\<close>, the band having the size of the image\<close>
  "putalpha im a = im\<lparr>mode := RGBA, px := \<lambda>x y. (px im x y)\<lparr>alpha := val a x y\<rparr>\<rparr>"

subsection \<open>Trimming: getbbox and crop\<close>

text \<open>
  Modelled from the spec: \<open>getbbox\<close> and \<open>crop\<close> are methods of Pillow, which is not
  among the sources. The spec (4.2, trimToContent) has them crop to the tightest
  bounding box of the non-zero-alpha pixels, with no box for a fully transparent
  raster. The model is the scan that finds such a box: rows from the top, columns from
  the left, a pixel having data when its alpha is not zero (an image with alpha) or one
  of its colour bands is not zero (one without). It starts from the box
  \<open>(width, -1, 0, 0)\<close> and answers \<open>None\<close> when no row had data. The box is
  \<open>(left, upper, right, lower)\<close>, right and lower exclusive.
\<close>

definition has_data :: "raster \<Rightarrow> nat \<Rightarrow> nat \<Rightarrow> bool" where
  "has_data im x y =
     (case mode im of
        RGBA \<Rightarrow> alpha (px im x y) \<noteq> 0
      | RGB \<Rightarrow> red (px im x y) \<noteq> 0 \<or> green (px im x y) \<noteq> 0 \<or> blue (px im x y) \<noteq> 0)"

definition scan_pixel :: "raster \<Rightarrow> nat \<Rightarrow> nat \<Rightarrow> bool \<times> nat \<times> nat \<Rightarrow> bool \<times> nat \<times> nat" where
  "scan_pixel im y x st =
     (case st of (seen, b0, b2) \<Rightarrow>
        if has_data im x y
        then (True, if x < b0 then x else b0, if b2 \<le> x then x + 1 else b2)
        else (seen, b0, b2))"

definition scan_row :: "raster \<Rightarrow> nat \<Rightarrow> nat \<times> int \<times> nat \<times> nat \<Rightarrow> nat \<times> int \<times> nat \<times> nat" where
  "scan_row im y st =
     (case st of (b0, b1, b2, b3) \<Rightarrow>
        (case fold (scan_pixel im y) [0..<width im] (False, b0, b2) of
           (seen, c0, c2) \<Rightarrow>
             if seen then (c0, if b1 < 0 then int y else b1, c2, y + 1)
             else (c0, b1, c2, b3)))"

definition getbbox :: "raster \<Rightarrow> box option" where
  "getbbox im =
     (case fold (scan_row im) [0..<height im] (width im, - 1, 0, 0) of
        (b0, b1, b2, b3) \<Rightarrow> if b1 < 0 then None else Some (b0, nat b1, b2, b3))"

definition crop :: "raster \<Rightarrow> box \<Rightarrow> raster" where
  \<comment> \<open>\<open>image.crop((left, upper, right, lower))\<close>; outside the image the region is
      transparent black\<close>
  "crop im b =
     (case b of (l, u, r, d) \<Rightarrow>
        im\<lparr>width := r - l, height := d - u,
           px := \<lambda>x y. if x + l < width im \<and> y + u < height im
                         then px im (x + l) (y + u) else transparent\<rparr>)"

definition trim :: "raster \<Rightarrow> raster" where
  \<comment> \<open>lines 311-313: \<open>bbox = no_bg.getbbox()\<close>, \<open>if bbox: no_bg = no_bg.crop(bbox)\<close>\<close>
  "trim no_bg = (case getbbox no_bg of None \<Rightarrow> no_bg | Some bbox \<Rightarrow> crop no_bg bbox)"

definition safe_pad :: nat where
  "safe_pad = 100"

definition pad_safe_zone :: "raster \<Rightarrow> raster" where
  \<comment> \<open>lines 317-321\<close>
  "pad_safe_zone no_bg =
     paste (new_image (width no_bg + safe_pad * 2, height no_bg + safe_pad * 2) transparent)
       no_bg (int safe_pad, int safe_pad)"

section \<open>is_product_white\<close>

definition coords :: "raster \<Rightarrow> (nat \<times> nat) list" where
  \<comment> \<open>the pixel positions in numpy's row-major order\<close>
  "coords im = concat (map (\<lambda>y. map (\<lambda>x. (x, y)) [0..<width im]) [0..<height im])"

definition masked :: "raster \<Rightarrow> (nat \<times> nat) list" where
  \<comment> \<open>\<open>mask = alpha > 0\<close>\<close>
  "masked im = filter (\<lambda>(x, y). 0 < alpha (px im x y)) (coords im)"

definition rgb_values :: "raster \<Rightarrow> nat list" where
  \<comment> \<open>\<open>pixels = rgb[mask]\<close>, flattened\<close>
  "rgb_values im =
     concat (map (\<lambda>(x, y). [unat (red (px im x y)), unat (green (px im x y)), unat (blue (px im x y))])
                 (masked im))"

definition np_mean :: "nat list \<Rightarrow> rat" where
  \<comment> \<open>\<open>np.mean\<close> of a non-empty array of bytes: the sum is accumulated in binary64
      (without rounding below \<open>2^53\<close>) and divided by the count\<close>
  "np_mean vs = f64 (f64_of_int (int (sum_list vs)) / f64_of_int (int (length vs)))"

definition is_product_white :: "raster \<Rightarrow> int \<Rightarrow> bool" where
  "is_product_white im threshold =
     (let img = convert_RGBA im
      in if masked img = [] then False
         else of_int threshold < np_mean (rgb_values img))"

section \<open>The external collaborators\<close>

text \<open>
  What the pipeline calls outside the repository and this model does not compute:
  the segmentation of rembg (with the PNG round trip around it), Pillow's Gaussian
  blur of one band, the blend of \<open>paste\<close> under a mask (mask byte, destination byte,
  source byte), the Lanczos resampling, the background plates on disk, and the pixels
  that the lighting and compositing stages of a plate style paint (processor.py, lines
  359-463: filters, enhancers and random grain). Every theorem holds for all of them.
  The sizes of the images they produce are Pillow's and are written into the model.
\<close>

record library =
  remove :: "raster \<Rightarrow> raster"
  gaussian_blur :: "rat \<Rightarrow> nat \<times> nat \<Rightarrow> (nat \<Rightarrow> nat \<Rightarrow> byte) \<Rightarrow> nat \<Rightarrow> nat \<Rightarrow> byte"
  blend8 :: "byte \<Rightarrow> byte \<Rightarrow> byte \<Rightarrow> byte"
  lanczos :: "raster \<Rightarrow> nat \<times> nat \<Rightarrow> nat \<Rightarrow> nat \<Rightarrow> pixel"
  asset :: "string \<Rightarrow> raster option"
  plate_pixels :: "string \<Rightarrow> raster \<Rightarrow> raster \<Rightarrow> int \<times> int \<times> int \<Rightarrow> nat \<Rightarrow> nat \<Rightarrow> pixel"

definition remove_background :: "library \<Rightarrow> raster \<Rightarrow> raster" where
  \<comment> \<open>lines 7-17: the result is converted to RGBA\<close>
  "remove_background lib input_image = convert_RGBA (remove lib input_image)"

definition blur_plane :: "library \<Rightarrow> rat \<Rightarrow> plane \<Rightarrow> plane" where
  \<comment> \<open>\<open>band.filter(ImageFilter.GaussianBlur(r))\<close>: same size\<close>
  "blur_plane lib r p = p\<lparr>val := gaussian_blur lib r (pwidth p, pheight p) (val p)\<rparr>"

definition blur_rgb :: "library \<Rightarrow> rat \<Rightarrow> raster \<Rightarrow> raster" where
  \<comment> \<open>the blur of an RGB image: each colour band on its own\<close>
  "blur_rgb lib r im =
     im\<lparr>px := \<lambda>x y.
        \<lparr>red = gaussian_blur lib r (size_of im) (\<lambda>i j. red (px im i j)) x y,
         green = gaussian_blur lib r (size_of im) (\<lambda>i j. green (px im i j)) x y,
         blue = gaussian_blur lib r (size_of im) (\<lambda>i j. blue (px im i j)) x y,
         alpha = alpha (px im x y)\<rparr>\<rparr>"

definition blend_pixel :: "library \<Rightarrow> byte \<Rightarrow> pixel \<Rightarrow> pixel \<Rightarrow> pixel" where
  "blend_pixel lib m d s =
     \<lparr>red = blend8 lib m (red d) (red s), green = blend8 lib m (green d) (green s),
      blue = blend8 lib m (blue d) (blue s), alpha = blend8 lib m (alpha d) (alpha s)\<rparr>"

definition paste_mask :: "library \<Rightarrow> raster \<Rightarrow> raster \<Rightarrow> plane \<Rightarrow> raster" where
  \<comment> \<open>\<open>dst.paste(src, (0, 0), mask=m)\<close>, source and mask of one size\<close>
  "paste_mask lib dst src m =
     dst\<lparr>px := \<lambda>x y. if x < width src \<and> y < height src
                       then blend_pixel lib (val m x y) (px dst x y) (px src x y)
                       else px dst x y\<rparr>"

definition resize :: "library \<Rightarrow> raster \<Rightarrow> nat \<times> nat \<Rightarrow> raster" where
  \<comment> \<open>\<open>image.resize(size, Image.Resampling.LANCZOS)\<close>\<close>
  "resize lib im sz = \<lparr>mode = mode im, width = fst sz, height = snd sz, px = lanczos lib im sz\<rparr>"

definition white :: pixel where
  "white = \<lparr>red = 255, green = 255, blue = 255, alpha = 255\<rparr>"

definition black :: pixel where
  "black = \<lparr>red = 0, green = 0, blue = 0, alpha = 255\<rparr>"

definition load_background :: "library \<Rightarrow> string \<Rightarrow> nat \<times> nat \<Rightarrow> raster" where
  \<comment> \<open>lines 230-238\<close>
  "load_background lib bg_name target_sz =
     (case asset lib bg_name of
        Some bg_img \<Rightarrow> resize lib (convert_RGBA bg_img) target_sz
      | None \<Rightarrow> new_image target_sz white)"

section \<open>Shadows and edges\<close>

definition create_drop_shadow ::
    "library \<Rightarrow> raster \<Rightarrow> int \<times> int \<Rightarrow> pixel \<Rightarrow> nat \<Rightarrow> raster \<times> nat" where
  \<comment> \<open>lines 47-71; \<open>blur\<close> is a radius, a non-negative int at every call\<close>
  "create_drop_shadow lib im offset background_color blur =
     (if \<not> has_alpha im then (im, 0)
      else let pad = blur * 4;
               w = width im; h = height im;
               a = alpha_band im;
               shadow_mask = new_plane (w + pad * 2, h + pad * 2) 0;
               shadow_mask = paste_plane shadow_mask a (int pad + fst offset, int pad + snd offset);
               shadow_mask = blur_plane lib (of_nat blur) shadow_mask;
               shadow_rgba = new_image (pwidth shadow_mask, pheight shadow_mask) background_color;
               shadow_rgba = putalpha shadow_rgba shadow_mask
           in (shadow_rgba, pad))"

definition zero_mask :: "plane \<Rightarrow> plane" where
  \<comment> \<open>\<open>alpha.point(lambda x: 255 if x == 0 else 0)\<close>\<close>
  "zero_mask a = a\<lparr>val := \<lambda>x y. if val a x y = 0 then 255 else 0\<rparr>"

definition bleed :: "library \<Rightarrow> plane \<Rightarrow> raster \<Rightarrow> raster" where
  \<comment> \<open>one round of the loop of \<open>solidify_edges\<close> (lines 253-259)\<close>
  "bleed lib a rgb = paste_mask lib rgb (blur_rgb lib 3 rgb) (zero_mask a)"

definition solidify_edges :: "library \<Rightarrow> raster \<Rightarrow> nat \<Rightarrow> raster" where
  \<comment> \<open>lines 240-262\<close>
  "solidify_edges lib im iterations =
     (if \<not> has_alpha im then im
      else let a = alpha_band im;
               rgb = convert_RGB im;
               rgb = (bleed lib a ^^ iterations) rgb
           in putalpha rgb a)"

definition feather_edges :: "library \<Rightarrow> raster \<Rightarrow> rat \<Rightarrow> raster" where
  \<comment> \<open>lines 264-281\<close>
  "feather_edges lib im blur_radius =
     (if \<not> has_alpha im then im
      else let im1 = solidify_edges lib im 2;
               a = blur_plane lib blur_radius (alpha_band im1)
           in putalpha im1 a)"

section \<open>Geometry of a plate style\<close>

text \<open>
  What \<open>process_product_photo\<close> computes for a plate style about sizes and positions:
  the scale (lines 351-357), the size of the processed subject (the steps of lines
  359-388 keep the size of the image), the anchor (lines 390-392) and the vertical
  position at which the shadow and the subject are pasted (line 458 resets it for a
  style that is not a floor). \<open>no_bg_size\<close> is the size of the padded subject,
  \<open>bg_size\<close> the size of the background layer, \<open>orig_h\<close> the height of the trimmed
  subject before padding.
\<close>

record placement =
  scale :: "rat option"
  p_w :: nat
  p_h :: nat
  pos_x :: int
  pos_y :: int
  paste_y :: int

definition scale_factor :: "string \<Rightarrow> rat" where
  \<comment> \<open>line 353\<close>
  "scale_factor manual_bg =
     (if is_flat_lay manual_bg then f64 (65 / 100)
      else if is_spotlight manual_bg then f64 (45 / 100) else f64 (5 / 10))"

definition perspective_scale :: "string \<Rightarrow> nat \<Rightarrow> nat \<Rightarrow> error + rat" where
  \<comment> \<open>lines 355-356\<close>
  "perspective_scale manual_bg bg_h orig_h =
     (let target_h = py_int (f64_mul (f64_of_int (int bg_h)) (scale_factor manual_bg))
      in int_truediv target_h (int orig_h))"

definition scaled :: "nat \<Rightarrow> rat \<Rightarrow> nat" where
  \<comment> \<open>\<open>int(n * scale)\<close>\<close>
  "scaled n sc = nat (py_int (f64_mul (f64_of_int (int n)) sc))"

definition anchor :: "string \<Rightarrow> nat \<times> nat \<Rightarrow> rat option \<Rightarrow> nat \<times> nat \<Rightarrow> placement" where
  \<comment> \<open>lines 390-392 and 458\<close>
  "anchor manual_bg bg_size sc p_size =
     (let bg_w = int (fst bg_size); bg_h = int (snd bg_size);
          pw = int (fst p_size); ph = int (snd p_size);
          x = (bg_w - pw) div 2;
          y = (if is_spotlight manual_bg \<or> is_flat_lay manual_bg then (bg_h - ph) div 2
               else py_int (f64_mul (f64_of_int bg_h) (f64 (7 / 10))) - ph)
      in \<lparr>scale = sc, p_w = fst p_size, p_h = snd p_size, pos_x = x, pos_y = y,
          paste_y = (if is_floor manual_bg then y else (bg_h - ph) div 2)\<rparr>)"

definition plate_placement :: "string \<Rightarrow> nat \<times> nat \<Rightarrow> nat \<times> nat \<Rightarrow> nat \<Rightarrow> error + placement" where
  "plate_placement manual_bg no_bg_size bg_size orig_h =
     (if is_floor manual_bg
      then (case perspective_scale manual_bg (snd bg_size) orig_h of
              Inl e \<Rightarrow> Inl e
            | Inr sc \<Rightarrow>
                Inr (anchor manual_bg bg_size (Some sc)
                       (scaled (fst no_bg_size) sc, scaled (snd no_bg_size) sc)))
      else Inr (anchor manual_bg bg_size None no_bg_size))"

section \<open>process_product_photo\<close>

definition plate_path :: "library \<Rightarrow> string \<Rightarrow> string \<Rightarrow> raster \<Rightarrow> nat \<Rightarrow> error + raster \<times> string" where
  \<comment> \<open>lines 339-465\<close>
  "plate_path lib manual_bg bg_key no_bg orig_h =
     (let bg_layer = load_background lib bg_key (size_of no_bg)
      in case plate_placement manual_bg (size_of no_bg) (size_of bg_layer) orig_h of
           Inl e \<Rightarrow> Inl e
         | Inr pl \<Rightarrow>
             let processed_product =
                   (case scale pl of None \<Rightarrow> no_bg | Some sc \<Rightarrow> resize lib no_bg (p_w pl, p_h pl));
                 final_render =
                   \<lparr>mode = RGB, width = width bg_layer, height = height bg_layer,
                    px = plate_pixels lib manual_bg bg_layer processed_product
                           (pos_x pl, pos_y pl, paste_y pl)\<rparr>
             in Inr (final_render, manual_bg))"

definition bg_color_of :: "raster \<Rightarrow> string option \<Rightarrow> string" where
  \<comment> \<open>lines 468-472\<close>
  "bg_color_of no_bg manual_bg =
     (let auto = (if is_product_white no_bg 200 then ''black'' else ''white'')
      in case manual_bg of
           None \<Rightarrow> auto
         | Some s \<Rightarrow> if s \<noteq> [] \<and> s \<in> set [''White'', ''Black''] then lower s else auto)"

definition color_named :: "string \<Rightarrow> pixel" where
  \<comment> \<open>the colour of \<open>Image.new("RGBA", size, bg_color)\<close>; \<open>bg_color\<close> is one of the two names\<close>
  "color_named bg_color = (if bg_color = ''black'' then black else white)"

definition flat_path :: "library \<Rightarrow> raster \<Rightarrow> string option \<Rightarrow> error + raster \<times> string" where
  \<comment> \<open>lines 467-478\<close>
  "flat_path lib no_bg manual_bg =
     (let bg_color = bg_color_of no_bg manual_bg;
          no_bg = feather_edges lib no_bg (f64 (7 / 10));
          final_render = new_image (size_of no_bg) (color_named bg_color);
          final_render = paste_mask lib final_render no_bg (alpha_band no_bg)
      in Inr (convert_RGB final_render, capitalize bg_color))"

definition process_product_photo :: "library \<Rightarrow> raster \<Rightarrow> string option \<Rightarrow> error + raster \<times> string" where
  "process_product_photo lib input_image manual_bg =
     (let no_bg = remove_background lib input_image;
          no_bg = trim no_bg;
          orig_h = height no_bg;
          no_bg = pad_safe_zone no_bg
      in case manual_bg of
           None \<Rightarrow> flat_path lib no_bg manual_bg
         | Some s \<Rightarrow>
             (case map_of image_bg_map s of
                Some bg_key \<Rightarrow> plate_path lib s bg_key no_bg orig_h
              | None \<Rightarrow> flat_path lib no_bg manual_bg))"

section \<open>The UI shell\<close>


section \<open>Vocabulary of the properties\<close>

text \<open>
  The opaque pixels of a raster (alpha above zero, inside the raster) and the sum of
  their colour bytes; the mean brightness of a raster is \<open>rgb_sum\<close> over three times
  the number of opaque pixels. \<open>bbox_inv\<close> is the invariant of the scan of \<open>getbbox\<close>
  after \<open>n\<close> rows.
\<close>

definition opaque :: "raster \<Rightarrow> (nat \<times> nat) set" where
  "opaque im = {(x, y). x < width im \<and> y < height im \<and> 0 < alpha (px im x y)}"

definition rgb_sum :: "raster \<Rightarrow> nat" where
  "rgb_sum im =
     (\<Sum>(x, y)\<in>opaque im. unat (red (px im x y)) + unat (green (px im x y)) + unat (blue (px im x y)))"

definition bbox_inv :: "raster \<Rightarrow> nat \<Rightarrow> nat \<times> int \<times> nat \<times> nat \<Rightarrow> bool" where
  "bbox_inv im n st =
     (case st of (b0, b1, b2, b3) \<Rightarrow>
        ((b1 < 0) = (\<not> (\<exists>x<width im. \<exists>y<n. has_data im x y))) \<and>
        (b1 < 0 \<longrightarrow> b0 = width im \<and> b2 = 0 \<and> b3 = 0) \<and>
        (0 \<le> b1 \<longrightarrow>
           (\<forall>x<width im. \<forall>y<n. has_data im x y \<longrightarrow> b0 \<le> x \<and> x < b2 \<and> nat b1 \<le> y \<and> y < b3) \<and>
           b0 < width im \<and> (\<exists>y<n. has_data im b0 y) \<and>
           0 < b2 \<and> b2 \<le> width im \<and> (\<exists>y<n. has_data im (b2 - 1) y) \<and>
           nat b1 < n \<and> (\<exists>x<width im. has_data im x (nat b1)) \<and>
           0 < b3 \<and> b3 \<le> n \<and> (\<exists>x<width im. has_data im x (b3 - 1))))"

section \<open>Concrete inputs\<close>

text \<open>
  Small rasters and one instance of the external collaborators (identity segmentation,
  no blur, a paste that keeps the destination where the mask is zero, no plate on
  disk), on which the definitions are evaluated.
\<close>

definition stub_library :: library where
  "stub_library =
     \<lparr>remove = (\<lambda>im. im),
      gaussian_blur = (\<lambda>r sz band. band),
      blend8 = (\<lambda>m d s. if m = 0 then d else s),
      lanczos = (\<lambda>im sz x y. px im 0 0),
      asset = (\<lambda>name. None),
      plate_pixels = (\<lambda>style bg product pos x y. px bg x y)\<rparr>"

definition blank_image :: raster where
  "blank_image = \<lparr>mode = RGBA, width = 2, height = 2, px = \<lambda>x y. transparent\<rparr>"

definition white_dot :: raster where
  "white_dot = \<lparr>mode = RGBA, width = 1, height = 1, px = \<lambda>x y. white\<rparr>"

definition black_dot :: raster where
  "black_dot = \<lparr>mode = RGBA, width = 1, height = 1, px = \<lambda>x y. black\<rparr>"

definition grey_dot :: raster where
  "grey_dot = \<lparr>mode = RGBA, width = 1, height = 1,
                px = \<lambda>x y. \<lparr>red = 210, green = 210, blue = 210, alpha = 255\<rparr>\<rparr>"

definition centre_dot :: raster where
  "centre_dot = \<lparr>mode = RGBA, width = 3, height = 3,
                  px = \<lambda>x y. if x = 1 \<and> y = 1 then white else transparent\<rparr>"

section \<open>Binary64 rounding: bounds, monotonicity, exact values\<close>

lemma bitlen_lower: "0 < a \<Longrightarrow> (2::rat) powi (bitlen a - 1) \<le> of_int a"
proof -
  assume a: "0 < a"
  from bitlen_bounds[OF a] have "2 ^ nat (bitlen a - 1) \<le> a" by simp
  then have "(of_int (2 ^ nat (bitlen a - 1)) :: rat) \<le> of_int a" by (simp only: of_int_le_iff)
  moreover have "bitlen a \<ge> 1" using a by (auto simp: bitlen_alt_def)
  ultimately show ?thesis by (simp add: power_int_def)
qed

lemma bitlen_upper: "0 < a \<Longrightarrow> of_int a < (2::rat) powi (bitlen a)"
proof -
  assume a: "0 < a"
  from bitlen_bounds[OF a] have "a < 2 ^ nat (bitlen a)" by simp
  then have "(of_int a :: rat) < of_int (2 ^ nat (bitlen a))" by (simp only: of_int_less_iff)
  moreover have "bitlen a \<ge> 0" by (rule bitlen_nonneg)
  ultimately show ?thesis by (simp add: power_int_def)
qed

lemma ilog2_bounds:
  assumes "0 < x"
  shows "2 powi (ilog2 x) \<le> x \<and> x < 2 powi (ilog2 x + 1)"
proof -
  obtain a b where q: "quotient_of x = (a, b)" by (cases "quotient_of x")
  have b: "0 < b" using q quotient_of_denom_pos by blast
  have x: "x = of_int a / of_int b" using q quotient_of_div by blast
  have a: "0 < a" using assms b x by (simp add: zero_less_divide_iff)
  define d where "d = bitlen a - bitlen b"
  have e1: "d - 1 = (bitlen a - 1) - bitlen b" and e2: "d + 1 = bitlen a - (bitlen b - 1)"
    by (simp_all add: d_def)
  have p1: "(2::rat) powi (d - 1) = 2 powi (bitlen a - 1) / 2 powi (bitlen b)"
    unfolding e1 by (rule power_int_diff) simp
  have p2: "(2::rat) powi (d + 1) = 2 powi (bitlen a) / 2 powi (bitlen b - 1)"
    unfolding e2 by (rule power_int_diff) simp
  have "(2::rat) powi (bitlen a - 1) / 2 powi (bitlen b) \<le> of_int a / of_int b"
  proof (rule frac_le)
    show "(0::rat) \<le> of_int a" using a by simp
    show "(2::rat) powi (bitlen a - 1) \<le> of_int a" by (rule bitlen_lower[OF a])
    show "(0::rat) < of_int b" using b by simp
    show "(of_int b :: rat) \<le> 2 powi bitlen b" using bitlen_upper[OF b] by simp
  qed
  then have lo: "(2::rat) powi (d - 1) \<le> x" by (simp only: p1 x)
  have "of_int a / of_int b < (2::rat) powi (bitlen a) / 2 powi (bitlen b - 1)"
  proof (rule frac_less)
    show "(0::rat) \<le> of_int a" using a by simp
    show "(of_int a :: rat) < 2 powi bitlen a" by (rule bitlen_upper[OF a])
    show "(0::rat) < 2 powi (bitlen b - 1)" by simp
    show "(2::rat) powi (bitlen b - 1) \<le> of_int b" by (rule bitlen_lower[OF b])
  qed
  then have hi: "x < (2::rat) powi (d + 1)" by (simp only: p2 x)
  have s: "(2::rat) powi (d - 1 + 1) = 2 powi d" by simp
  show ?thesis
    using lo hi q s by (auto simp: ilog2_def d_def Let_def simp del: )
qed

lemma powi2_pos: "0 < (2::rat) powi k"
  by simp

lemma powi2_mono: "k \<le> l \<Longrightarrow> (2::rat) powi k \<le> 2 powi l"
  by (rule power_int_increasing) simp_all

lemma powi2_less_imp: "(2::rat) powi k < 2 powi l \<Longrightarrow> k < l"
  using powi2_mono[of l k] by (cases "k < l") auto

lemma ilog2_unique:
  assumes "2 powi k \<le> x" "x < 2 powi (k + 1)"
  shows "ilog2 x = k"
proof -
  have x: "0 < x" using assms(1) powi2_pos[of k] by linarith
  note b = ilog2_bounds[OF x]
  have "2 powi k < (2::rat) powi (ilog2 x + 1)" using assms(1) b by linarith
  then have 1: "k < ilog2 x + 1" by (rule powi2_less_imp)
  have "2 powi (ilog2 x) < (2::rat) powi (k + 1)" using assms(2) b by linarith
  then have 2: "ilog2 x < k + 1" by (rule powi2_less_imp)
  show ?thesis using 1 2 by simp
qed

lemma ilog2_mono: "0 < x \<Longrightarrow> x \<le> y \<Longrightarrow> ilog2 x \<le> ilog2 y"
proof -
  assume x: "0 < x" and xy: "x \<le> y"
  then have y: "0 < y" by simp
  have "2 powi (ilog2 x) < (2::rat) powi (ilog2 y + 1)"
    using ilog2_bounds[OF x] ilog2_bounds[OF y] xy by linarith
  then show ?thesis using powi2_less_imp by fastforce
qed

lemma rhe_frac: "\<bar>of_int (round_half_even x) - x\<bar> \<le> 1 / 2"
  unfolding round_half_even_def Let_def
  by (auto simp: abs_if) linarith+

lemma rhe_floor_le: "\<lfloor>x\<rfloor> \<le> round_half_even x"
  by (simp add: round_half_even_def Let_def)

lemma rhe_le_floor1: "round_half_even x \<le> \<lfloor>x\<rfloor> + 1"
  by (simp add: round_half_even_def Let_def)

lemma rhe_le_int: "x \<le> of_int k \<Longrightarrow> round_half_even x \<le> k"
proof -
  assume xk: "x \<le> of_int k"
  show ?thesis
  proof (cases "x = of_int k")
    case True
    then show ?thesis by (simp add: round_half_even_def)
  next
    case False
    then have "x < of_int k" using xk by simp
    then have "\<lfloor>x\<rfloor> < k" by (simp add: floor_less_iff)
    then show ?thesis using rhe_le_floor1[of x] by linarith
  qed
qed

lemma rhe_ge_int: "of_int k \<le> x \<Longrightarrow> k \<le> round_half_even x"
  using rhe_floor_le[of x] le_floor_iff[of k x] by linarith

lemma rhe_of_int: "round_half_even (of_int k) = k"
  by (simp add: round_half_even_def)

lemma rhe_mono: "x \<le> y \<Longrightarrow> round_half_even x \<le> round_half_even y"
proof -
  assume xy: "x \<le> y"
  then have f: "\<lfloor>x\<rfloor> \<le> \<lfloor>y\<rfloor>" by (rule floor_mono)
  show ?thesis
  proof (cases "\<lfloor>x\<rfloor> = \<lfloor>y\<rfloor>")
    case True
    then show ?thesis using xy
      by (auto simp: round_half_even_def Let_def)
  next
    case False
    then have "\<lfloor>x\<rfloor> + 1 \<le> \<lfloor>y\<rfloor>" using f by simp
    then show ?thesis using rhe_le_floor1[of x] rhe_floor_le[of y] by linarith
  qed
qed

lemma f64_pos_eq:
  assumes "0 < x"
  shows "f64 x = of_int (round_half_even (x * 2 powi (52 - ilog2 x))) * 2 powi (ilog2 x - 52)"
  using assms by (simp add: f64_def Let_def)

lemma scaled_lower:
  assumes "0 < x"
  shows "2 ^ 52 \<le> x * 2 powi (52 - ilog2 x)"
proof -
  have "(2::rat) powi (ilog2 x) * 2 powi (52 - ilog2 x) \<le> x * 2 powi (52 - ilog2 x)"
    by (rule mult_right_mono) (use ilog2_bounds[OF assms] in simp_all)
  moreover have "(2::rat) powi (ilog2 x) * 2 powi (52 - ilog2 x) = 2 powi 52"
    by (simp flip: power_int_add)
  ultimately show ?thesis by simp
qed

lemma scaled_upper:
  assumes "0 < x"
  shows "x * 2 powi (52 - ilog2 x) < 2 ^ 53"
proof -
  have "x * 2 powi (52 - ilog2 x) < (2::rat) powi (ilog2 x + 1) * 2 powi (52 - ilog2 x)"
    by (rule mult_strict_right_mono) (use ilog2_bounds[OF assms] in simp_all)
  moreover have "(2::rat) powi (ilog2 x + 1) * 2 powi (52 - ilog2 x) = 2 powi 53"
    by (simp flip: power_int_add)
  ultimately show ?thesis by simp
qed

lemma significand_bounds:
  assumes "0 < x"
  shows "2 ^ 52 \<le> round_half_even (x * 2 powi (52 - ilog2 x))"
    and "round_half_even (x * 2 powi (52 - ilog2 x)) \<le> 2 ^ 53"
proof -
  have "(of_int (2 ^ 52) :: rat) \<le> x * 2 powi (52 - ilog2 x)"
    using scaled_lower[OF assms] by simp
  then show "2 ^ 52 \<le> round_half_even (x * 2 powi (52 - ilog2 x))" by (rule rhe_ge_int)
  have "x * 2 powi (52 - ilog2 x) \<le> (of_int (2 ^ 53) :: rat)"
    using scaled_upper[OF assms] by simp
  then show "round_half_even (x * 2 powi (52 - ilog2 x)) \<le> 2 ^ 53" by (rule rhe_le_int)
qed

lemma f64_nonneg: "0 \<le> f64 x"
proof (cases "0 < x")
  case True
  have "(0::int) \<le> 2 ^ 52" by simp
  then have "(0::int) \<le> round_half_even (x * 2 powi (52 - ilog2 x))"
    using significand_bounds(1)[OF True] by (rule order_trans)
  then show ?thesis by (simp add: f64_pos_eq[OF True])
next
  case False
  then show ?thesis by (simp add: f64_def)
qed

lemma powi2_split52: "(2::rat) ^ 52 * 2 powi (k - 52) = 2 powi k"
proof -
  have "(2::rat) powi 52 * 2 powi (k - 52) = 2 powi (52 + (k - 52))"
    by (rule power_int_add[symmetric]) simp
  then show ?thesis by simp
qed

lemma powi2_split53: "(2::rat) ^ 53 * 2 powi (k - 52) = 2 powi (k + 1)"
proof -
  have "(2::rat) powi 53 * 2 powi (k - 52) = 2 powi (53 + (k - 52))"
    by (rule power_int_add[symmetric]) simp
  then show ?thesis by (simp add: add.commute)
qed

lemma f64_lower:
  assumes "0 < x"
  shows "2 powi (ilog2 x) \<le> f64 x"
proof -
  have "(of_int (2 ^ 52) :: rat) \<le> of_int (round_half_even (x * 2 powi (52 - ilog2 x)))"
    using significand_bounds(1)[OF assms] by (simp only: of_int_le_iff)
  then have m: "(2::rat) ^ 52 \<le> of_int (round_half_even (x * 2 powi (52 - ilog2 x)))"
    by (simp only: of_int_power of_int_numeral)
  have "(2::rat) powi (ilog2 x) = 2 ^ 52 * 2 powi (ilog2 x - 52)"
    by (rule powi2_split52[symmetric])
  also have "\<dots> \<le> of_int (round_half_even (x * 2 powi (52 - ilog2 x))) * 2 powi (ilog2 x - 52)"
    by (rule mult_right_mono[OF m]) simp
  also have "\<dots> = f64 x" by (simp only: f64_pos_eq[OF assms])
  finally show ?thesis .
qed

lemma f64_upper:
  assumes "0 < x"
  shows "f64 x \<le> 2 powi (ilog2 x + 1)"
proof -
  have "(of_int (round_half_even (x * 2 powi (52 - ilog2 x))) :: rat) \<le> of_int (2 ^ 53)"
    using significand_bounds(2)[OF assms] by (simp only: of_int_le_iff)
  then have m: "(of_int (round_half_even (x * 2 powi (52 - ilog2 x))) :: rat) \<le> 2 ^ 53"
    by (simp only: of_int_power of_int_numeral)
  have "f64 x = of_int (round_half_even (x * 2 powi (52 - ilog2 x))) * 2 powi (ilog2 x - 52)"
    by (simp only: f64_pos_eq[OF assms])
  also have "\<dots> \<le> 2 ^ 53 * 2 powi (ilog2 x - 52)"
    by (rule mult_right_mono[OF m]) simp
  also have "\<dots> = 2 powi (ilog2 x + 1)" by (rule powi2_split53)
  finally show ?thesis .
qed

lemma f64_mono: "x \<le> y \<Longrightarrow> f64 x \<le> f64 y"
proof -
  assume xy: "x \<le> y"
  show ?thesis
  proof (cases "0 < x")
    case False
    then have "f64 x = 0" by (simp add: f64_def)
    then show ?thesis using f64_nonneg[of y] by simp
  next
    case x: True
    then have y: "0 < y" using xy by simp
    have k: "ilog2 x \<le> ilog2 y" by (rule ilog2_mono[OF x xy])
    show ?thesis
    proof (cases "ilog2 x = ilog2 y")
      case True
      have "x * 2 powi (52 - ilog2 y) \<le> y * 2 powi (52 - ilog2 y)"
        by (rule mult_right_mono[OF xy]) simp
      then have "round_half_even (x * 2 powi (52 - ilog2 y))
                   \<le> round_half_even (y * 2 powi (52 - ilog2 y))" by (rule rhe_mono)
      then have "(of_int (round_half_even (x * 2 powi (52 - ilog2 y))) :: rat)
                   \<le> of_int (round_half_even (y * 2 powi (52 - ilog2 y)))"
        by (simp only: of_int_le_iff)
      then have "of_int (round_half_even (x * 2 powi (52 - ilog2 y))) * 2 powi (ilog2 y - 52)
                   \<le> of_int (round_half_even (y * 2 powi (52 - ilog2 y))) * (2::rat) powi (ilog2 y - 52)"
        by (rule mult_right_mono) simp
      then show ?thesis by (simp add: f64_pos_eq[OF x] f64_pos_eq[OF y] True)
    next
      case False
      then have "ilog2 x + 1 \<le> ilog2 y" using k by simp
      then have "(2::rat) powi (ilog2 x + 1) \<le> 2 powi (ilog2 y)" by (rule powi2_mono)
      then show ?thesis using f64_upper[OF x] f64_lower[OF y] by linarith
    qed
  qed
qed

lemma f64_exact:
  assumes "0 < x" "x * 2 powi (52 - ilog2 x) = of_int m"
  shows "f64 x = x"
proof -
  have "f64 x = x * 2 powi (52 - ilog2 x) * 2 powi (ilog2 x - 52)"
    by (simp add: f64_pos_eq[OF assms(1)] assms(2) rhe_of_int)
  also have "\<dots> = x * (2 powi (52 - ilog2 x) * 2 powi (ilog2 x - 52))" by simp
  also have "2 powi (52 - ilog2 x) * 2 powi (ilog2 x - 52) = (2::rat) powi ((52 - ilog2 x) + (ilog2 x - 52))"
    by (rule power_int_add[symmetric]) simp
  finally show ?thesis by simp
qed

lemma f64_dyadic:
  assumes "0 < j" "j < 2 ^ 53"
  shows "f64 (of_int j / 2 ^ s) = of_int j / 2 ^ s"
proof -
  define x :: rat where "x = of_int j / 2 ^ s"
  have x: "0 < x" using assms(1) by (simp add: x_def)
  have "x < 2 ^ 53 / 2 ^ s"
    unfolding x_def using assms(2) by (simp add: divide_strict_right_mono)
  also have "\<dots> = (2::rat) powi (53 - int s)"
    by (simp add: power_int_diff)
  finally have "(2::rat) powi (ilog2 x) < 2 powi (53 - int s)"
    using ilog2_bounds[OF x] by linarith
  then have "ilog2 x < 53 - int s" by (rule powi2_less_imp)
  then have "0 \<le> 52 - ilog2 x - int s" by simp
  then obtain t :: nat where "52 - ilog2 x - int s = int t"
    using nonneg_int_cases by blast
  then have t: "52 - ilog2 x = int s + int t" by simp
  have "(2::rat) powi (int s + int t) = 2 powi (int s) * 2 powi (int t)"
    by (rule power_int_add) simp
  then have p: "(2::rat) powi (52 - ilog2 x) = 2 ^ s * 2 ^ t"
    by (simp only: t power_int_of_nat)
  have "x * 2 powi (52 - ilog2 x) = of_int j / 2 ^ s * (2 ^ s * 2 ^ t)"
    by (simp only: p) (simp add: x_def)
  also have "\<dots> = of_int (j * 2 ^ t)" by simp
  finally have "f64 x = x" by (rule f64_exact[OF x])
  then show ?thesis by (simp add: x_def)
qed

lemma f64_of_int_exact: "0 \<le> n \<Longrightarrow> n < 2 ^ 53 \<Longrightarrow> f64_of_int n = of_int n"
proof -
  assume n: "0 \<le> n" "n < 2 ^ 53"
  show ?thesis
  proof (cases "n = 0")
    case True
    then show ?thesis by (simp add: f64_of_int_def f64_def)
  next
    case False
    then have "0 < n" using n by simp
    from f64_dyadic[OF this n(2), of 0] show ?thesis by (simp add: f64_of_int_def)
  qed
qed

lemma f64_rel_error:
  assumes "0 \<le> x"
  shows "\<bar>f64 x - x\<bar> \<le> x / 2 ^ 53"
proof (cases "x = 0")
  case True
  then show ?thesis by (simp add: f64_def)
next
  case False
  then have x: "0 < x" using assms by simp
  define z where "z = x * 2 powi (52 - ilog2 x)"
  define m where "m = round_half_even z"
  have inv: "2 powi (52 - ilog2 x) * 2 powi (ilog2 x - 52) = (1::rat)"
  proof -
    have "2 powi (52 - ilog2 x) * 2 powi (ilog2 x - 52) = (2::rat) powi ((52 - ilog2 x) + (ilog2 x - 52))"
      by (rule power_int_add[symmetric]) simp
    then show ?thesis by simp
  qed
  have xz: "x = z * 2 powi (ilog2 x - 52)"
    using inv by (simp add: z_def mult.assoc)
  have "f64 x - x = (of_int m - z) * 2 powi (ilog2 x - 52)"
    using xz by (simp add: f64_pos_eq[OF x] m_def z_def left_diff_distrib)
  then have "\<bar>f64 x - x\<bar> = \<bar>of_int m - z\<bar> * 2 powi (ilog2 x - 52)"
    by (simp add: abs_mult)
  also have "\<dots> \<le> (1 / 2) * 2 powi (ilog2 x - 52)"
    by (rule mult_right_mono) (use rhe_frac[of z] in \<open>simp_all add: m_def\<close>)
  also have "\<dots> \<le> (z / 2 ^ 53) * 2 powi (ilog2 x - 52)"
    by (rule mult_right_mono) (use scaled_lower[OF x] in \<open>simp_all add: z_def\<close>)
  also have "\<dots> = x / 2 ^ 53" using xz by simp
  finally show ?thesis .
qed

section \<open>The bounding box scan\<close>

text \<open>The scan of one row, then the invariant over the rows scanned so far.\<close>

lemma scan_pixel_row:
  "fold (scan_pixel im y) [0..<n] (False, b0, b2) = (seen, c0, c2) \<Longrightarrow>
     (seen \<longleftrightarrow> (\<exists>x<n. has_data im x y)) \<and>
     (\<forall>x<n. has_data im x y \<longrightarrow> c0 \<le> x \<and> x < c2) \<and>
     c0 \<le> b0 \<and> b2 \<le> c2 \<and>
     (c0 = b0 \<or> (c0 < n \<and> has_data im c0 y)) \<and>
     (c2 = b2 \<or> (0 < c2 \<and> c2 \<le> n \<and> has_data im (c2 - 1) y))"
proof (induction n arbitrary: seen c0 c2)
  case 0
  then show ?case by simp
next
  case (Suc n)
  obtain s1 d0 d2 where f: "fold (scan_pixel im y) [0..<n] (False, b0, b2) = (s1, d0, d2)"
    by (cases "fold (scan_pixel im y) [0..<n] (False, b0, b2)")
  note ih = Suc.IH[OF f]
  have step: "scan_pixel im y n (s1, d0, d2) = (seen, c0, c2)"
    using Suc.prems f by simp
  show ?case
  proof (cases "has_data im n y")
    case True
    then have e: "seen = True" "c0 = (if n < d0 then n else d0)" "c2 = (if d2 \<le> n then n + 1 else d2)"
      using step by (auto simp: scan_pixel_def)
    show ?thesis
      using ih True unfolding e
      by (auto simp: less_Suc_eq)
  next
    case False
    then have e: "seen = s1" "c0 = d0" "c2 = d2"
      using step by (auto simp: scan_pixel_def)
    show ?thesis
      using ih False unfolding e
      by (auto simp: less_Suc_eq)
  qed
qed

lemma bbox_inv_step:
  assumes inv: "bbox_inv im n st"
  shows "bbox_inv im (Suc n) (scan_row im n st)"
proof -
  obtain b0 b1 b2 b3 where st: "st = (b0, b1, b2, b3)" by (cases st)
  obtain seen c0 c2 where f: "fold (scan_pixel im n) [0..<width im] (False, b0, b2) = (seen, c0, c2)"
    by (cases "fold (scan_pixel im n) [0..<width im] (False, b0, b2)")
  note row = scan_pixel_row[OF f]
  show ?thesis
  proof (cases seen)
    case False
    then have nodata: "\<forall>x<width im. \<not> has_data im x n" using row by blast
    have c0: "c0 = b0" using row nodata by blast
    have "\<not> (0 < c2 \<and> c2 \<le> width im \<and> has_data im (c2 - 1) n)"
    proof
      assume a: "0 < c2 \<and> c2 \<le> width im \<and> has_data im (c2 - 1) n"
      then have "c2 - 1 < width im" by arith
      then show False using nodata a by blast
    qed
    then have c2: "c2 = b2" using row by blast
    note c = c0 c2
    have r: "scan_row im n st = st"
      using False f c by (simp add: scan_row_def st)
    show ?thesis
      unfolding r using inv nodata
      unfolding bbox_inv_def st
      by (auto simp: less_Suc_eq)
  next
    case True
    then obtain x0 where x0: "x0 < width im" "has_data im x0 n" using row by blast
    have r: "scan_row im n st = (c0, if b1 < 0 then int n else b1, c2, n + 1)"
      using True f by (simp add: scan_row_def st)
    have inrow: "\<forall>x<width im. has_data im x n \<longrightarrow> c0 \<le> x \<and> x < c2"
      and le: "c0 \<le> b0" "b2 \<le> c2"
      and l: "c0 = b0 \<or> (c0 < width im \<and> has_data im c0 n)"
      and u: "c2 = b2 \<or> (0 < c2 \<and> c2 \<le> width im \<and> has_data im (c2 - 1) n)"
      using row by blast+
    have x0': "c0 \<le> x0" "x0 < c2" using inrow x0 by blast+
    show ?thesis
    proof (cases "b1 < 0")
      case neg: True
      then have old: "b0 = width im" "b2 = 0" "b3 = 0" "\<forall>x<width im. \<forall>y<n. \<not> has_data im x y"
        using inv unfolding bbox_inv_def st by auto
      have hl: "has_data im c0 n" using l x0 x0' old by auto
      have hu: "c2 \<le> width im" "has_data im (c2 - 1) n" using u x0' old by auto
      have exn: "\<exists>x<width im. has_data im x n" using x0 by blast
      have exs: "\<exists>x<width im. \<exists>y<Suc n. has_data im x y" using x0 by blast
      have c0w: "c0 < width im" using x0 x0' by simp
      have c2p: "0 < c2" using x0' by simp
      have all: "\<forall>x<width im. \<forall>y<Suc n. has_data im x y \<longrightarrow> c0 \<le> x \<and> x < c2 \<and> n \<le> y \<and> y < n + 1"
        using old(4) inrow by (auto simp: less_Suc_eq)
      have hl': "\<exists>y<Suc n. has_data im c0 y" using hl by blast
      have hu': "\<exists>y<Suc n. has_data im (c2 - 1) y" using hu by blast
      show ?thesis
        unfolding r bbox_inv_def using neg exn exs c0w c2p all hl' hu' hu(1)
        by simp
    next
      case pos: False
      then have old:
          "\<forall>x<width im. \<forall>y<n. has_data im x y \<longrightarrow> b0 \<le> x \<and> x < b2 \<and> nat b1 \<le> y \<and> y < b3"
          "b0 < width im" "\<exists>y<n. has_data im b0 y"
          "0 < b2" "b2 \<le> width im" "\<exists>y<n. has_data im (b2 - 1) y"
          "nat b1 < n" "\<exists>x<width im. has_data im x (nat b1)"
          "0 < b3" "b3 \<le> n"
        using inv unfolding bbox_inv_def st by auto
      have hl: "\<exists>y<Suc n. has_data im c0 y" using l old(3) by (auto simp: less_Suc_eq)
      have hu: "c2 \<le> width im" "\<exists>y<Suc n. has_data im (c2 - 1) y"
        using u old(5,6) by (auto simp: less_Suc_eq)
      have all: "\<forall>x<width im. \<forall>y<Suc n. has_data im x y \<longrightarrow> c0 \<le> x \<and> x < c2 \<and> nat b1 \<le> y \<and> y < n + 1"
      proof (intro allI impI)
        fix x y assume a: "x < width im" "y < Suc n" "has_data im x y"
        show "c0 \<le> x \<and> x < c2 \<and> nat b1 \<le> y \<and> y < n + 1"
        proof (cases "y = n")
          case True
          then show ?thesis using a inrow old(7) by auto
        next
          case False
          then have "y < n" using a by simp
          then have "b0 \<le> x \<and> x < b2 \<and> nat b1 \<le> y \<and> y < b3" using old(1) a by blast
          then show ?thesis using le a by auto
        qed
      qed
      have exs: "\<exists>x<width im. \<exists>y<Suc n. has_data im x y" using x0 by blast
      have exn: "\<exists>x<width im. has_data im x n" using x0 by blast
      have c0w: "c0 < width im" using le old(2) by simp
      have c2p: "0 < c2" using x0' by simp
      have b1n: "nat b1 < Suc n" using old(7) by simp
      show ?thesis
        unfolding r bbox_inv_def using pos exs exn c0w c2p b1n old(8) hl hu all
        by simp
    qed
  qed
qed

lemma bbox_inv_fold: "bbox_inv im n (fold (scan_row im) [0..<n] (width im, - 1, 0, 0))"
proof (induction n)
  case 0
  show ?case by (simp add: bbox_inv_def)
next
  case (Suc n)
  then show ?case using bbox_inv_step by simp
qed

lemma getbbox_None_iff:
  "getbbox im = None \<longleftrightarrow> \<not> (\<exists>x<width im. \<exists>y<height im. has_data im x y)"
proof -
  obtain b0 b1 b2 b3 where f: "fold (scan_row im) [0..<height im] (width im, - 1, 0, 0) = (b0, b1, b2, b3)"
    by (cases "fold (scan_row im) [0..<height im] (width im, - 1, 0, 0)")
  have "bbox_inv im (height im) (b0, b1, b2, b3)"
    using bbox_inv_fold[of im "height im"] f by simp
  then have "(b1 < 0) = (\<not> (\<exists>x<width im. \<exists>y<height im. has_data im x y))"
    by (simp add: bbox_inv_def)
  then show ?thesis by (simp add: getbbox_def f)
qed

lemma getbbox_Some:
  assumes "getbbox im = Some (l, u, r, d)"
  shows "\<forall>x<width im. \<forall>y<height im. has_data im x y \<longrightarrow> l \<le> x \<and> x < r \<and> u \<le> y \<and> y < d"
    and "l < r" and "r \<le> width im" and "u < d" and "d \<le> height im"
    and "\<exists>y<height im. has_data im l y"
    and "\<exists>y<height im. has_data im (r - 1) y"
    and "\<exists>x<width im. has_data im x u"
    and "\<exists>x<width im. has_data im x (d - 1)"
proof -
  obtain b0 b1 b2 b3 where f: "fold (scan_row im) [0..<height im] (width im, - 1, 0, 0) = (b0, b1, b2, b3)"
    by (cases "fold (scan_row im) [0..<height im] (width im, - 1, 0, 0)")
  have inv: "bbox_inv im (height im) (b0, b1, b2, b3)"
    using bbox_inv_fold[of im "height im"] f by simp
  have b: "0 \<le> b1" "l = b0" "u = nat b1" "r = b2" "d = b3"
    using assms by (auto simp: getbbox_def f split: if_splits)
  have facts:
      "\<forall>x<width im. \<forall>y<height im. has_data im x y \<longrightarrow> b0 \<le> x \<and> x < b2 \<and> nat b1 \<le> y \<and> y < b3"
      "b0 < width im" "\<exists>y<height im. has_data im b0 y"
      "0 < b2" "b2 \<le> width im" "\<exists>y<height im. has_data im (b2 - 1) y"
      "nat b1 < height im" "\<exists>x<width im. has_data im x (nat b1)"
      "0 < b3" "b3 \<le> height im" "\<exists>x<width im. has_data im x (b3 - 1)"
    using inv b(1) unfolding bbox_inv_def by auto
  show "\<forall>x<width im. \<forall>y<height im. has_data im x y \<longrightarrow> l \<le> x \<and> x < r \<and> u \<le> y \<and> y < d"
    using facts(1) b by simp
  show "r \<le> width im" "d \<le> height im" using facts b by simp_all
  show "\<exists>y<height im. has_data im l y" "\<exists>y<height im. has_data im (r - 1) y"
    "\<exists>x<width im. has_data im x u" "\<exists>x<width im. has_data im x (d - 1)"
    using facts b by simp_all
  obtain y where y: "y < height im" "has_data im b0 y" using facts(3) by blast
  then show "l < r" using facts(1,2) b by auto
  obtain x where x: "x < width im" "has_data im x (nat b1)" using facts(8) by blast
  then show "u < d" using facts(1,7) b by auto
qed

lemma has_data_RGBA: "mode im = RGBA \<Longrightarrow> has_data im x y \<longleftrightarrow> 0 < alpha (px im x y)"
  by (simp add: has_data_def word_gt_0)

text \<open>
  C3: for an RGBA raster with at least one pixel of non-zero alpha, the trim step
  (\<open>getbbox\<close>, then \<open>crop\<close>) yields the minimal bounding box of the pixels of
  non-zero alpha: the box lies inside the raster, the trimmed raster is that region,
  every pixel with alpha above zero lies inside the box, and the left column, the right
  column, the top row and the bottom row of the box each hold such a pixel.
\<close>

theorem trim_is_minimal_bounding_box:
  assumes "mode im = RGBA" and "\<exists>x<width im. \<exists>y<height im. 0 < alpha (px im x y)"
  shows "\<exists>l u r d. getbbox im = Some (l, u, r, d) \<and> trim im = crop im (l, u, r, d) \<and>
           l < r \<and> r \<le> width im \<and> u < d \<and> d \<le> height im \<and>
           width (trim im) = r - l \<and> height (trim im) = d - u \<and>
           (\<forall>x<r - l. \<forall>y<d - u. px (trim im) x y = px im (x + l) (y + u)) \<and>
           (\<forall>x<width im. \<forall>y<height im. 0 < alpha (px im x y) \<longrightarrow> l \<le> x \<and> x < r \<and> u \<le> y \<and> y < d) \<and>
           (\<exists>y<height im. 0 < alpha (px im l y)) \<and>
           (\<exists>y<height im. 0 < alpha (px im (r - 1) y)) \<and>
           (\<exists>x<width im. 0 < alpha (px im x u)) \<and>
           (\<exists>x<width im. 0 < alpha (px im x (d - 1)))"
proof -
  have "getbbox im \<noteq> None"
    using assms by (simp add: getbbox_None_iff has_data_RGBA)
  then obtain l u r d where g: "getbbox im = Some (l, u, r, d)" by (cases "getbbox im") auto
  note f = getbbox_Some[OF g]
  have t: "trim im = crop im (l, u, r, d)" by (simp add: trim_def g)
  have w: "width (trim im) = r - l" "height (trim im) = d - u"
    by (simp_all add: t crop_def)
  have p: "\<forall>x<r - l. \<forall>y<d - u. px (trim im) x y = px im (x + l) (y + u)"
    using f(3,5) by (auto simp: t crop_def)
  show ?thesis
    using g t w p f assms(1) by (simp add: has_data_RGBA)
qed

theorem trim_is_minimal_bounding_box_witness:
  "mode centre_dot = RGBA \<and>
   (\<exists>x<width centre_dot. \<exists>y<height centre_dot. 0 < alpha (px centre_dot x y)) \<and>
   getbbox centre_dot = Some (1, 1, 2, 2) \<and>
   width (trim centre_dot) = 1 \<and> height (trim centre_dot) = 1"
proof -
  have h1: "mode centre_dot = RGBA" by (simp add: centre_dot_def)
  have "(1::nat) < width centre_dot \<and> (1::nat) < height centre_dot \<and> 0 < alpha (px centre_dot 1 1)"
    by (simp add: centre_dot_def white_def)
  then have h2: "\<exists>x<width centre_dot. \<exists>y<height centre_dot. 0 < alpha (px centre_dot x y)"
    by blast
  have g: "getbbox centre_dot = Some (1, 1, 2, 2)" by code_simp
  from trim_is_minimal_bounding_box[OF h1 h2] g
  have "width (trim centre_dot) = 1 \<and> height (trim centre_dot) = 1" by auto
  then show ?thesis using h1 h2 g by simp
qed

section \<open>Brightness statistics\<close>

lemma set_coords: "set (coords im) = {(x, y). x < width im \<and> y < height im}"
  by (auto simp: coords_def)

lemma coords_product: "coords im = map prod.swap (List.product [0..<height im] [0..<width im])"
  by (simp add: coords_def product_concat_map map_concat comp_def)

lemma distinct_coords: "distinct (coords im)"
  unfolding coords_product
  by (simp add: distinct_map distinct_product)

lemma set_masked: "set (masked im) = opaque im"
  by (auto simp: masked_def opaque_def set_coords)

lemma distinct_masked: "distinct (masked im)"
  by (simp add: masked_def distinct_coords)

lemma finite_opaque: "finite (opaque im)"
  using set_masked[of im] by (metis List.finite_set)

lemma length_masked: "length (masked im) = card (opaque im)"
  using distinct_card[OF distinct_masked, of im] by (simp add: set_masked)

lemma masked_empty_iff: "masked im = [] \<longleftrightarrow> opaque im = {}"
  using set_masked[of im] by (metis set_empty)

lemma length_rgb_values: "length (rgb_values im) = 3 * card (opaque im)"
proof -
  have "length (concat (map (\<lambda>(x, y). [unat (red (px im x y)), unat (green (px im x y)), unat (blue (px im x y))]) xs))
          = 3 * length xs" for xs
    by (induction xs) auto
  then have "length (rgb_values im) = 3 * length (masked im)"
    by (simp add: rgb_values_def)
  then show ?thesis by (simp add: length_masked)
qed

lemma sum_list_rgb_values: "sum_list (rgb_values im) = rgb_sum im"
proof -
  let ?g = "\<lambda>(x, y). unat (red (px im x y)) + unat (green (px im x y)) + unat (blue (px im x y))"
  have "sum_list (concat (map (\<lambda>(x, y). [unat (red (px im x y)), unat (green (px im x y)), unat (blue (px im x y))]) xs))
          = sum_list (map ?g xs)" for xs
    by (induction xs) auto
  then have "sum_list (rgb_values im) = sum_list (map ?g (masked im))"
    by (simp add: rgb_values_def)
  also have "\<dots> = sum ?g (set (masked im))"
    by (rule sum_list_distinct_conv_sum_set[OF distinct_masked])
  finally show ?thesis by (simp add: rgb_sum_def set_masked)
qed

lemma unat_byte: "unat (b :: byte) \<le> 255"
proof -
  have "unat b < 2 ^ LENGTH(8)" by (rule unsigned_less)
  then show ?thesis by simp
qed

lemma rgb_sum_le: "rgb_sum im \<le> 765 * card (opaque im)"
proof -
  have "rgb_sum im \<le> (\<Sum>p\<in>opaque im. 765)"
    unfolding rgb_sum_def
  proof (rule sum_mono)
    fix p assume "p \<in> opaque im"
    obtain x y where p: "p = (x, y)" by (cases p)
    have "unat (red (px im x y)) \<le> 255" "unat (green (px im x y)) \<le> 255" "unat (blue (px im x y)) \<le> 255"
      by (rule unat_byte)+
    then show "(case p of (x, y) \<Rightarrow> unat (red (px im x y)) + unat (green (px im x y)) + unat (blue (px im x y))) \<le> 765"
      by (simp add: p)
  qed
  then show ?thesis by simp
qed

lemma card_opaque_le: "card (opaque im) \<le> width im * height im"
proof -
  have "opaque im \<subseteq> {..<width im} \<times> {..<height im}" by (auto simp: opaque_def)
  then have "card (opaque im) \<le> card ({..<width im} \<times> {..<height im})"
    by (intro card_mono) auto
  then show ?thesis by simp
qed

lemma is_product_white_alt:
  "is_product_white im t \<longleftrightarrow>
     opaque (convert_RGBA im) \<noteq> {} \<and>
     of_int t < f64 (f64_of_int (int (rgb_sum (convert_RGBA im)))
                       / f64_of_int (int (3 * card (opaque (convert_RGBA im)))))"
  by (simp add: is_product_white_def Let_def masked_empty_iff np_mean_def
        sum_list_rgb_values length_rgb_values)

lemma f64_nat_exact: "n < 2 ^ 53 \<Longrightarrow> f64_of_int (int n) = of_nat n"
proof -
  assume "n < 2 ^ 53"
  then have "int n < 2 ^ 53" by (metis of_nat_less_iff of_nat_numeral of_nat_power)
  then show ?thesis using f64_of_int_exact[of "int n"] by simp
qed

lemma f64_gt_int_iff:
  fixes s c :: nat
  assumes c: "0 < c" and sc: "s \<le> 255 * c" and big: "255 * c < 2 ^ 53"
  shows "of_int t < f64 (of_nat s / of_nat c) \<longleftrightarrow> of_int t < (of_nat s / of_nat c :: rat)"
proof -
  define q :: rat where "q = of_nat s / of_nat c"
  have cpos: "(0::rat) < of_nat c" using c by simp
  have q0: "0 \<le> q" by (simp add: q_def)
  have "(of_nat s :: rat) \<le> of_nat (255 * c)" using sc by (simp only: of_nat_le_iff)
  then have q255: "q \<le> 255" using cpos by (simp add: q_def pos_divide_le_eq)
  have "(of_nat (255 * c) :: rat) < of_nat (2 ^ 53)" using big by (simp only: of_nat_less_iff)
  then have bigr: "255 * (of_nat c :: rat) < 2 ^ 53" by simp
  have f255: "f64 255 = 255"
    using f64_dyadic[of 255 0] by simp
  show ?thesis
    unfolding q_def[symmetric]
  proof
    assume a: "of_int t < f64 q"
    show "of_int t < q"
    proof (rule ccontr)
      assume "\<not> of_int t < q"
      then have qt: "q \<le> of_int t" by simp
      have m: "f64 q \<le> f64 (of_int t)" by (rule f64_mono[OF qt])
      show False
      proof (cases "t < 255")
        case False
        then have "(255::rat) \<le> of_int t" by simp
        moreover have "f64 q \<le> 255" using f64_mono[OF q255] f255 by simp
        ultimately show False using a by linarith
      next
        case True
        have t0: "0 \<le> t" using qt q0 by (metis of_int_0_le_iff order_trans)
        have "t < 2 ^ 53" using True by simp
        then have "f64 (of_int t) = of_int t"
          using f64_of_int_exact[OF t0] by (simp add: f64_of_int_def)
        then show False using a m by linarith
      qed
    qed
  next
    assume a: "of_int t < q"
    show "of_int t < f64 q"
    proof (cases "t < 0")
      case True
      then have "(of_int t :: rat) < 0" by simp
      then show ?thesis using f64_nonneg[of q] by linarith
    next
      case False
      then have t0: "0 \<le> t" by simp
      have "of_int t * of_nat c < (of_nat s :: rat)"
        using a cpos by (simp add: q_def pos_less_divide_eq)
      then have "(of_int (t * int c) :: rat) < of_int (int s)" by simp
      then have "t * int c < int s" by (simp only: of_int_less_iff)
      then have "t * int c + 1 \<le> int s" by simp
      then have "(of_int (t * int c + 1) :: rat) \<le> of_int (int s)" by (simp only: of_int_le_iff)
      then have "of_int t * of_nat c + 1 \<le> (of_nat s :: rat)" by simp
      then have "(of_int t * of_nat c + 1) / of_nat c \<le> q"
        using cpos by (simp add: q_def divide_right_mono)
      then have lo: "of_int t + 1 / of_nat c \<le> q"
        using cpos by (simp add: add_divide_distrib)
      have "q / 2 ^ 53 \<le> 255 / 2 ^ 53" using q255 by (simp add: divide_right_mono)
      also have "\<dots> < 1 / of_nat c"
        using bigr cpos by (simp add: field_simps)
      finally have e: "q / 2 ^ 53 < 1 / of_nat c" .
      have "\<bar>f64 q - q\<bar> \<le> q / 2 ^ 53" by (rule f64_rel_error[OF q0])
      then have "q - q / 2 ^ 53 \<le> f64 q" by linarith
      then show ?thesis using e lo by linarith
    qed
  qed
qed

text \<open>
  C4: \<open>is_product_white\<close> answers true exactly when some pixel has alpha above zero and
  the mean of the R, G, B values over exactly those pixels is strictly above the
  threshold; with no such pixel it answers false (it is a total function: no error).
  The threshold is an int, as at every call; the raster has fewer than \<open>2^43\<close> pixels,
  so that the binary64 mean of numpy cannot round across an integer threshold.
\<close>

theorem is_product_white_iff_mean:
  assumes "width im * height im < 2 ^ 43"
  shows "is_product_white im threshold \<longleftrightarrow>
           opaque (convert_RGBA im) \<noteq> {} \<and>
           of_int threshold
             < (of_nat (rgb_sum (convert_RGBA im)) / of_nat (3 * card (opaque (convert_RGBA im))) :: rat)"
proof (cases "opaque (convert_RGBA im) = {}")
  case True
  then show ?thesis by (simp add: is_product_white_alt)
next
  case False
  define n where "n = card (opaque (convert_RGBA im))"
  define s where "s = rgb_sum (convert_RGBA im)"
  have wh: "width (convert_RGBA im) = width im" "height (convert_RGBA im) = height im"
    by (simp_all add: convert_RGBA_def split: mode.splits)
  have n0: "0 < n" using False finite_opaque[of "convert_RGBA im"] by (simp add: n_def card_gt_0_iff)
  have "n \<le> width im * height im"
    using card_opaque_le[of "convert_RGBA im"] by (simp add: n_def wh)
  then have nb: "n < 2 ^ 43" using assms by simp
  have sn: "s \<le> 765 * n" using rgb_sum_le[of "convert_RGBA im"] by (simp add: s_def n_def)
  have c: "0 < 3 * n" using n0 by simp
  have sc: "s \<le> 255 * (3 * n)" using sn by simp
  have "765 * n < 765 * 2 ^ 43" using nb by simp
  also have "\<dots> < (2::nat) ^ 53" by simp
  finally have big: "255 * (3 * n) < 2 ^ 53" by simp
  have lt: "s < 2 ^ 53" "3 * n < 2 ^ 53" using sc big by linarith+
  have ex: "f64_of_int (int s) = of_nat s" "f64_of_int (int (3 * n)) = of_nat (3 * n)"
    using f64_nat_exact[OF lt(1)] f64_nat_exact[OF lt(2)] by blast+
  have "is_product_white im threshold \<longleftrightarrow>
          of_int threshold < f64 (of_nat s / of_nat (3 * n))"
    using False ex by (simp only: is_product_white_alt s_def[symmetric] n_def[symmetric]) simp
  also have "\<dots> \<longleftrightarrow> of_int threshold < (of_nat s / of_nat (3 * n) :: rat)"
    by (rule f64_gt_int_iff[OF c sc big])
  finally show ?thesis using False by (simp add: s_def n_def)
qed

lemma f64_of_int_mono: "a \<le> b \<Longrightarrow> f64_of_int a \<le> f64_of_int b"
  unfolding f64_of_int_def by (rule f64_mono) simp

lemma f64_of_int_nonneg: "0 \<le> f64_of_int a"
  unfolding f64_of_int_def by (rule f64_nonneg)

lemma convert_RGBA_size [simp]:
  "width (convert_RGBA im) = width im" "height (convert_RGBA im) = height im"
  by (simp_all add: convert_RGBA_def split: mode.splits)

lemma convert_RGBA_mode [simp]: "mode (convert_RGBA im) = RGBA"
  by (simp add: convert_RGBA_def split: mode.splits)

lemma convert_RGBA_id: "mode im = RGBA \<Longrightarrow> convert_RGBA im = im"
  by (simp add: convert_RGBA_def)

theorem is_product_white_iff_mean_witness:
  "width white_dot * height white_dot < 2 ^ 43 \<and>
   is_product_white white_dot 200 \<and>
   opaque (convert_RGBA white_dot) \<noteq> {} \<and>
   (of_int 200 :: rat)
     < of_nat (rgb_sum (convert_RGBA white_dot)) / of_nat (3 * card (opaque (convert_RGBA white_dot))) \<and>
   width blank_image * height blank_image < 2 ^ 43 \<and>
   opaque (convert_RGBA blank_image) = {} \<and>
   \<not> is_product_white blank_image 0"
proof -
  have h: "width white_dot * height white_dot < 2 ^ 43" by (simp add: white_dot_def)
  have w: "is_product_white white_dot 200" by code_simp
  have hb: "width blank_image * height blank_image < 2 ^ 43" by (simp add: blank_image_def)
  have eb: "opaque (convert_RGBA blank_image) = {}"
    by (simp add: opaque_def blank_image_def convert_RGBA_def transparent_def)
  show ?thesis
    using h w hb eb is_product_white_iff_mean[OF h, of 200] is_product_white_iff_mean[OF hb, of 0]
    by simp
qed

text \<open>
  C5: \<open>is_product_white\<close> is monotone in brightness. For two rasters of one size with
  identical alpha channels, if every R, G, B value of every opaque pixel of \<open>b\<close> is
  at least the value in \<open>a\<close>, then \<open>a\<close> light implies \<open>b\<close> light, for any threshold.
\<close>

theorem is_product_white_monotone:
  assumes size: "width a = width b" "height a = height b"
    and same_alpha: "\<forall>x<width a. \<forall>y<height a.
            alpha (px (convert_RGBA a) x y) = alpha (px (convert_RGBA b) x y)"
    and brighter: "\<forall>x<width a. \<forall>y<height a. 0 < alpha (px (convert_RGBA a) x y) \<longrightarrow>
            red (px (convert_RGBA a) x y) \<le> red (px (convert_RGBA b) x y) \<and>
            green (px (convert_RGBA a) x y) \<le> green (px (convert_RGBA b) x y) \<and>
            blue (px (convert_RGBA a) x y) \<le> blue (px (convert_RGBA b) x y)"
    and light: "is_product_white a threshold"
  shows "is_product_white b threshold"
proof -
  let ?A = "convert_RGBA a" and ?B = "convert_RGBA b"
  have op: "opaque ?A = opaque ?B"
    using size same_alpha by (auto simp: opaque_def)
  have "rgb_sum ?A \<le> rgb_sum ?B"
    unfolding rgb_sum_def op[symmetric]
  proof (rule sum_mono)
    fix p assume p: "p \<in> opaque ?A"
    obtain x y where xy: "p = (x, y)" by (cases p)
    have "x < width a" "y < height a" "0 < alpha (px ?A x y)"
      using p by (auto simp: opaque_def xy)
    then have "red (px ?A x y) \<le> red (px ?B x y)" "green (px ?A x y) \<le> green (px ?B x y)"
      "blue (px ?A x y) \<le> blue (px ?B x y)"
      using brighter by blast+
    then have "unat (red (px ?A x y)) \<le> unat (red (px ?B x y))"
      "unat (green (px ?A x y)) \<le> unat (green (px ?B x y))"
      "unat (blue (px ?A x y)) \<le> unat (blue (px ?B x y))"
      by (simp_all add: word_le_nat_alt)
    then show "(case p of (x, y) \<Rightarrow> unat (red (px ?A x y)) + unat (green (px ?A x y)) + unat (blue (px ?A x y)))
             \<le> (case p of (x, y) \<Rightarrow> unat (red (px ?B x y)) + unat (green (px ?B x y)) + unat (blue (px ?B x y)))"
      by (simp add: xy)
  qed
  then have "f64_of_int (int (rgb_sum ?A)) \<le> f64_of_int (int (rgb_sum ?B))"
    by (intro f64_of_int_mono) simp
  then have "f64_of_int (int (rgb_sum ?A)) / f64_of_int (int (3 * card (opaque ?B)))
               \<le> f64_of_int (int (rgb_sum ?B)) / f64_of_int (int (3 * card (opaque ?B)))"
    by (rule divide_right_mono) (rule f64_of_int_nonneg)
  then have "f64 (f64_of_int (int (rgb_sum ?A)) / f64_of_int (int (3 * card (opaque ?B))))
               \<le> f64 (f64_of_int (int (rgb_sum ?B)) / f64_of_int (int (3 * card (opaque ?B))))"
    by (rule f64_mono)
  then show ?thesis
    using light unfolding is_product_white_alt op by auto
qed

theorem is_product_white_monotone_witness:
  "width grey_dot = width white_dot \<and> height grey_dot = height white_dot \<and>
   is_product_white grey_dot 200 \<and> is_product_white white_dot 200"
proof -
  have s: "width grey_dot = width white_dot" "height grey_dot = height white_dot"
    by (simp_all add: grey_dot_def white_dot_def)
  have a: "\<forall>x<width grey_dot. \<forall>y<height grey_dot.
            alpha (px (convert_RGBA grey_dot) x y) = alpha (px (convert_RGBA white_dot) x y)"
    by (simp add: grey_dot_def white_dot_def convert_RGBA_def white_def)
  have b: "\<forall>x<width grey_dot. \<forall>y<height grey_dot. 0 < alpha (px (convert_RGBA grey_dot) x y) \<longrightarrow>
            red (px (convert_RGBA grey_dot) x y) \<le> red (px (convert_RGBA white_dot) x y) \<and>
            green (px (convert_RGBA grey_dot) x y) \<le> green (px (convert_RGBA white_dot) x y) \<and>
            blue (px (convert_RGBA grey_dot) x y) \<le> blue (px (convert_RGBA white_dot) x y)"
    by (simp add: grey_dot_def white_dot_def convert_RGBA_def white_def)
  have l: "is_product_white grey_dot 200" by code_simp
  show ?thesis
    using s l is_product_white_monotone[OF s a b l] by simp
qed

section \<open>Trimming and padding keep the brightness statistics\<close>

lemma stats_transfer:
  assumes fwd: "\<And>p. p \<in> opaque A \<Longrightarrow> j p \<in> opaque B \<and> i (j p) = p \<and>
                   px B (fst (j p)) (snd (j p)) = px A (fst p) (snd p)"
    and bwd: "\<And>q. q \<in> opaque B \<Longrightarrow> i q \<in> opaque A \<and> j (i q) = q"
  shows "card (opaque A) = card (opaque B)" and "rgb_sum A = rgb_sum B"
proof -
  have "bij_betw j (opaque A) (opaque B)"
    by (rule bij_betw_byWitness[where f' = i]) (use fwd bwd in auto)
  then show "card (opaque A) = card (opaque B)" by (rule bij_betw_same_card)
  show "rgb_sum A = rgb_sum B"
    unfolding rgb_sum_def
  proof (rule sum.reindex_bij_witness[where i = i and j = j])
    fix p assume p: "p \<in> opaque A"
    show "i (j p) = p" "j p \<in> opaque B" using fwd[OF p] by simp_all
    have "px B (fst (j p)) (snd (j p)) = px A (fst p) (snd p)" using fwd[OF p] by simp
    then show "(case j p of (x, y) \<Rightarrow> unat (red (px B x y)) + unat (green (px B x y)) + unat (blue (px B x y)))
             = (case p of (x, y) \<Rightarrow> unat (red (px A x y)) + unat (green (px A x y)) + unat (blue (px A x y)))"
      by (simp add: case_prod_beta)
  next
    fix q assume q: "q \<in> opaque B"
    show "j (i q) = q" "i q \<in> opaque A" using bwd[OF q] by simp_all
  qed
qed

lemma stats_crop:
  assumes g: "getbbox im = Some (l, u, r, d)" and m: "mode im = RGBA"
  shows "card (opaque (crop im (l, u, r, d))) = card (opaque im)"
    and "rgb_sum (crop im (l, u, r, d)) = rgb_sum im"
proof -
  note f = getbbox_Some[OF g]
  let ?C = "crop im (l, u, r, d)"
  let ?j = "\<lambda>p. (fst p + l, snd p + u)" and ?i = "\<lambda>p. (fst p - l, snd p - u)"
  have fwd: "?j p \<in> opaque im \<and> ?i (?j p) = p \<and>
             px im (fst (?j p)) (snd (?j p)) = px ?C (fst p) (snd p)" if "p \<in> opaque ?C" for p
  proof -
    obtain x y where xy: "p = (x, y)" by (cases p)
    have b: "x < r - l" "y < d - u" using that by (auto simp: opaque_def crop_def xy)
    then have in_im: "x + l < width im" "y + u < height im" using f(3,5) by linarith+
    then have e: "px ?C x y = px im (x + l) (y + u)" by (simp add: crop_def)
    have "0 < alpha (px ?C x y)" using that by (auto simp: opaque_def xy)
    then show ?thesis using in_im e by (simp add: opaque_def xy)
  qed
  have bwd: "?i q \<in> opaque ?C \<and> ?j (?i q) = q" if "q \<in> opaque im" for q
  proof -
    obtain x y where xy: "q = (x, y)" by (cases q)
    have q: "x < width im" "y < height im" "0 < alpha (px im x y)"
      using that by (auto simp: opaque_def xy)
    then have "has_data im x y" using m by (simp add: has_data_RGBA)
    then have box: "l \<le> x" "x < r" "u \<le> y" "y < d" using f(1) q by blast+
    then have "px ?C (x - l) (y - u) = px im x y" using q by (simp add: crop_def)
    then show ?thesis using box q by (auto simp: opaque_def xy crop_def)
  qed
  show "card (opaque ?C) = card (opaque im)" "rgb_sum ?C = rgb_sum im"
    using stats_transfer[of ?C ?j im ?i] fwd bwd by blast+
qed

lemma stats_trim:
  assumes "mode im = RGBA"
  shows "card (opaque (trim im)) = card (opaque im)" and "rgb_sum (trim im) = rgb_sum im"
proof -
  show "card (opaque (trim im)) = card (opaque im)"
  proof (cases "getbbox im")
    case None
    then show ?thesis by (simp add: trim_def)
  next
    case (Some b)
    obtain l u r d where b: "b = (l, u, r, d)" by (cases b)
    show ?thesis using stats_crop(1)[OF Some[unfolded b] assms] by (simp add: trim_def Some b)
  qed
  show "rgb_sum (trim im) = rgb_sum im"
  proof (cases "getbbox im")
    case None
    then show ?thesis by (simp add: trim_def)
  next
    case (Some b)
    obtain l u r d where b: "b = (l, u, r, d)" by (cases b)
    show ?thesis using stats_crop(2)[OF Some[unfolded b] assms] by (simp add: trim_def Some b)
  qed
qed

lemma pad_safe_zone_px:
  "px (pad_safe_zone im) x y =
     (if 100 \<le> x \<and> x < 100 + width im \<and> 100 \<le> y \<and> y < 100 + height im
      then px im (x - 100) (y - 100) else transparent)"
  by (auto simp: pad_safe_zone_def paste_def new_image_def inside_def size_of_def safe_pad_def
        nat_diff_distrib')

lemma pad_safe_zone_size [simp]:
  "width (pad_safe_zone im) = width im + 200" "height (pad_safe_zone im) = height im + 200"
  "mode (pad_safe_zone im) = RGBA"
  by (simp_all add: pad_safe_zone_def paste_def new_image_def safe_pad_def)

lemma stats_pad:
  shows "card (opaque (pad_safe_zone im)) = card (opaque im)"
    and "rgb_sum (pad_safe_zone im) = rgb_sum im"
proof -
  let ?P = "pad_safe_zone im"
  let ?j = "\<lambda>p. (fst p - 100, snd p - (100::nat))" and ?i = "\<lambda>p. (fst p + 100, snd p + (100::nat))"
  have fwd: "?j p \<in> opaque im \<and> ?i (?j p) = p \<and>
             px im (fst (?j p)) (snd (?j p)) = px ?P (fst p) (snd p)" if "p \<in> opaque ?P" for p
  proof -
    obtain x y where xy: "p = (x, y)" by (cases p)
    have a: "0 < alpha (px ?P x y)" using that by (auto simp: opaque_def xy)
    have ins: "100 \<le> x \<and> x < 100 + width im \<and> 100 \<le> y \<and> y < 100 + height im"
    proof (rule ccontr)
      assume "\<not> (100 \<le> x \<and> x < 100 + width im \<and> 100 \<le> y \<and> y < 100 + height im)"
      then have "px ?P x y = transparent" by (simp only: pad_safe_zone_px if_False)
      then show False using a by (simp add: transparent_def)
    qed
    then have e: "px ?P x y = px im (x - 100) (y - 100)" by (simp add: pad_safe_zone_px)
    show ?thesis using ins a e by (auto simp: opaque_def xy)
  qed
  have bwd: "?i q \<in> opaque ?P \<and> ?j (?i q) = q" if "q \<in> opaque im" for q
  proof -
    obtain x y where xy: "q = (x, y)" by (cases q)
    have q: "x < width im" "y < height im" "0 < alpha (px im x y)"
      using that by (auto simp: opaque_def xy)
    then have "px ?P (x + 100) (y + 100) = px im x y" by (simp add: pad_safe_zone_px)
    then show ?thesis using q by (auto simp: opaque_def xy)
  qed
  show "card (opaque ?P) = card (opaque im)" "rgb_sum ?P = rgb_sum im"
    using stats_transfer[of ?P ?j im ?i] fwd bwd by blast+
qed

lemma trim_mode [simp]: "mode (trim im) = mode im"
  by (simp add: trim_def crop_def split: option.splits prod.splits)

lemma is_product_white_stats:
  assumes "mode A = RGBA" "mode B = RGBA"
    and "card (opaque A) = card (opaque B)" "rgb_sum A = rgb_sum B"
  shows "is_product_white A t = is_product_white B t"
proof -
  have "opaque A = {} \<longleftrightarrow> opaque B = {}"
    using assms(3) finite_opaque[of A] finite_opaque[of B] by (metis card_eq_0_iff)
  then show ?thesis
    by (simp add: is_product_white_alt convert_RGBA_id assms)
qed

lemma is_product_white_subject:
  assumes "mode im = RGBA"
  shows "is_product_white (pad_safe_zone (trim im)) t = is_product_white im t"
  by (rule is_product_white_stats)
     (simp_all add: assms stats_pad stats_trim)

lemma getbbox_None_opaque:
  assumes "getbbox im = None" "mode im = RGBA"
  shows "opaque im = {}"
  using assms by (auto simp: getbbox_None_iff opaque_def has_data_RGBA)

section \<open>The flat-colour path\<close>

lemma capitalize_white: "capitalize ''white'' = ''White''" by code_simp
lemma capitalize_black: "capitalize ''black'' = ''Black''" by code_simp
lemma lower_White: "lower ''White'' = ''white''" by code_simp
lemma lower_Black: "lower ''Black'' = ''black''" by code_simp

lemma is_floor_catalog: "\<forall>name\<in>set (map fst image_bg_map). is_floor name"
  by (simp add: image_bg_map_def is_floor_def any_in_def)

lemma catalog_key_floor: "map_of image_bg_map s = Some key \<Longrightarrow> is_floor s"
proof -
  assume "map_of image_bg_map s = Some key"
  then have "(s, key) \<in> set image_bg_map" by (rule map_of_SomeD)
  then have "s \<in> set (map fst image_bg_map)" by force
  then show ?thesis using is_floor_catalog by blast
qed

lemma in_catalog_iff: "in_image_bg_map manual_bg \<longleftrightarrow> (\<exists>s key. manual_bg = Some s \<and> map_of image_bg_map s = Some key)"
  by (cases manual_bg) (auto simp: in_image_bg_map_def)


lemma paste_mask_size [simp]:
  "width (paste_mask lib dst src m) = width dst" "height (paste_mask lib dst src m) = height dst"
  "mode (paste_mask lib dst src m) = mode dst"
  by (simp_all add: paste_mask_def)

lemma bleed_size [simp]:
  "width (bleed lib a rgb) = width rgb" "height (bleed lib a rgb) = height rgb"
  by (simp_all add: bleed_def)

lemma bleed_iter_size [simp]:
  "width ((bleed lib a ^^ n) rgb) = width rgb" "height ((bleed lib a ^^ n) rgb) = height rgb"
  by (induction n) simp_all

lemma solidify_edges_size [simp]:
  "width (solidify_edges lib im n) = width im" "height (solidify_edges lib im n) = height im"
  by (simp_all add: solidify_edges_def Let_def putalpha_def convert_RGB_def)

lemma feather_edges_size [simp]:
  "width (feather_edges lib im r) = width im" "height (feather_edges lib im r) = height im"
  by (simp_all add: feather_edges_def Let_def putalpha_def)

lemma flat_path_result:
  "\<exists>r. flat_path lib no_bg manual_bg = Inr (r, capitalize (bg_color_of no_bg manual_bg)) \<and>
       width r = width no_bg \<and> height r = height no_bg \<and> mode r = RGB"
  by (simp add: flat_path_def Let_def convert_RGB_def new_image_def size_of_def)

lemma process_flat:
  "\<not> in_image_bg_map manual_bg \<Longrightarrow>
     process_product_photo lib img manual_bg
       = flat_path lib (pad_safe_zone (trim (remove_background lib img))) manual_bg"
  by (cases manual_bg) (auto simp: process_product_photo_def Let_def in_image_bg_map_def)

lemma process_plate:
  "map_of image_bg_map s = Some key \<Longrightarrow>
     process_product_photo lib img (Some s)
       = plate_path lib s key (pad_safe_zone (trim (remove_background lib img)))
           (height (trim (remove_background lib img)))"
  by (simp add: process_product_photo_def Let_def)

lemma bg_color_auto:
  "manual_bg \<noteq> Some ''White'' \<Longrightarrow> manual_bg \<noteq> Some ''Black'' \<Longrightarrow>
     bg_color_of no_bg manual_bg = (if is_product_white no_bg 200 then ''black'' else ''white'')"
  by (cases manual_bg) (auto simp: bg_color_of_def Let_def)

lemma remove_background_mode [simp]: "mode (remove_background lib img) = RGBA"
  by (simp add: remove_background_def)

lemma auto_label:
  assumes "\<not> in_image_bg_map manual_bg" "manual_bg \<noteq> Some ''White''" "manual_bg \<noteq> Some ''Black''"
  shows "\<exists>r. process_product_photo lib img manual_bg
               = Inr (r, if is_product_white (remove_background lib img) 200 then ''Black'' else ''White'') \<and>
             width r = width (trim (remove_background lib img)) + 200 \<and>
             height r = height (trim (remove_background lib img)) + 200 \<and> mode r = RGB"
proof -
  let ?sub = "pad_safe_zone (trim (remove_background lib img))"
  have w: "is_product_white ?sub 200 = is_product_white (remove_background lib img) 200"
    by (rule is_product_white_subject) simp
  have c: "capitalize (bg_color_of ?sub manual_bg)
             = (if is_product_white (remove_background lib img) 200 then ''Black'' else ''White'')"
    by (simp add: bg_color_auto[OF assms(2,3)] w capitalize_white capitalize_black del: capitalize.simps)
  show ?thesis
    using flat_path_result[of lib ?sub manual_bg]
    by (simp add: process_flat[OF assms(1)] c)
qed

text \<open>
  C2: when no background is chosen (\<open>manual_bg\<close> is \<open>None\<close>, or a string that is neither
  a plate style nor one of the colour names White and Black), the second output of
  \<open>process_product_photo\<close> is Black when \<open>is_product_white\<close> classifies the subject
  after background removal as light, and White otherwise. The code classifies the
  trimmed and padded subject; that is the classification of the segmentation result.
\<close>

theorem auto_background_resolution:
  assumes "\<not> in_image_bg_map manual_bg" "manual_bg \<noteq> Some ''White''" "manual_bg \<noteq> Some ''Black''"
  shows "(\<exists>r. process_product_photo lib input_image manual_bg
               = Inr (r, if is_product_white (remove_background lib input_image) 200
                         then ''Black'' else ''White'')) \<and>
         is_product_white (pad_safe_zone (trim (remove_background lib input_image))) 200
           = is_product_white (remove_background lib input_image) 200"
proof -
  have 1: "\<exists>r. process_product_photo lib input_image manual_bg
               = Inr (r, if is_product_white (remove_background lib input_image) 200
                         then ''Black'' else ''White'')"
    using auto_label[OF assms, of lib input_image] by blast
  have 2: "is_product_white (pad_safe_zone (trim (remove_background lib input_image))) 200
           = is_product_white (remove_background lib input_image) 200"
    by (rule is_product_white_subject) simp
  show ?thesis using 1 2 by blast
qed

lemma white_dot_light: "is_product_white (remove_background stub_library white_dot) 200"
  by code_simp

lemma black_dot_dark: "\<not> is_product_white (remove_background stub_library black_dot) 200"
  by code_simp

theorem auto_background_resolution_witness:
  "\<not> in_image_bg_map None \<and>
   snd (projr (process_product_photo stub_library white_dot None)) = ''Black'' \<and>
   snd (projr (process_product_photo stub_library black_dot None)) = ''White''"
proof -
  have h: "\<not> in_image_bg_map None" "None \<noteq> Some ''White''" "None \<noteq> Some ''Black''"
    by (simp_all add: in_image_bg_map_def)
  from auto_background_resolution[OF h, of stub_library white_dot] white_dot_light
  obtain r where "process_product_photo stub_library white_dot None = Inr (r, ''Black'')" by auto
  then have 1: "snd (projr (process_product_photo stub_library white_dot None)) = ''Black''"
    by simp
  from auto_background_resolution[OF h, of stub_library black_dot] black_dot_dark
  obtain r' where "process_product_photo stub_library black_dot None = Inr (r', ''White'')" by auto
  then have 2: "snd (projr (process_product_photo stub_library black_dot None)) = ''White''"
    by simp
  show ?thesis using h(1) 1 2 by simp
qed

section \<open>The lowercase colour names of the UI shell\<close>





section \<open>An empty bounding box\<close>

lemma load_background_size [simp]:
  "width (load_background lib key sz) = fst sz" "height (load_background lib key sz) = snd sz"
  by (simp_all add: load_background_def resize_def new_image_def split: option.splits)

lemma plate_placement_floor:
  assumes "is_floor s"
  shows "plate_placement s nsz bsz orig_h =
           (if orig_h = 0 then Inl ZeroDivisionError
            else Inr (anchor s bsz
                        (Some (f64 (of_int (py_int (f64_mul (f64_of_int (int (snd bsz))) (scale_factor s)))
                                      / of_nat orig_h)))
                        (scaled (fst nsz) (f64 (of_int (py_int (f64_mul (f64_of_int (int (snd bsz))) (scale_factor s)))
                                      / of_nat orig_h)),
                         scaled (snd nsz) (f64 (of_int (py_int (f64_mul (f64_of_int (int (snd bsz))) (scale_factor s)))
                                      / of_nat orig_h)))))"
  using assms by (simp add: plate_placement_def perspective_scale_def int_truediv_def Let_def)

lemma plate_path_result:
  assumes "is_floor s"
  shows "0 < orig_h \<Longrightarrow> \<exists>r. plate_path lib s key no_bg orig_h = Inr (r, s) \<and>
            width r = width no_bg \<and> height r = height no_bg \<and> mode r = RGB"
    and "orig_h = 0 \<Longrightarrow> plate_path lib s key no_bg orig_h = Inl ZeroDivisionError"
  by (simp_all add: plate_path_def Let_def plate_placement_floor[OF assms] size_of_def)

text \<open>
  C1, as amended: when the segmentation result has an empty bounding box,
  \<open>process_product_photo\<close> reports no content error. The crop is skipped and the
  whole transparent raster goes on: with a flat colour or no choice the call returns
  a raster 200 pixels wider and higher than the segmentation result, labelled Black
  for the explicit choice Black and White otherwise; with a plate style it returns the
  plate composition labelled with the style, unless the raster has height zero, where
  the division by the trimmed height fails.
\<close>

theorem empty_bbox_is_not_reported:
  assumes "getbbox (remove_background lib img) = None"
  shows "trim (remove_background lib img) = remove_background lib img \<and>
         (\<not> in_image_bg_map manual_bg \<longrightarrow>
            (\<exists>r. process_product_photo lib img manual_bg
                    = Inr (r, if manual_bg = Some ''Black'' then ''Black'' else ''White'') \<and>
                  width r = width (remove_background lib img) + 200 \<and>
                  height r = height (remove_background lib img) + 200 \<and> mode r = RGB)) \<and>
         (in_image_bg_map manual_bg \<and> 0 < height (remove_background lib img) \<longrightarrow>
            (\<exists>r. process_product_photo lib img manual_bg = Inr (r, the manual_bg) \<and>
                  width r = width (remove_background lib img) + 200 \<and>
                  height r = height (remove_background lib img) + 200 \<and> mode r = RGB)) \<and>
         (in_image_bg_map manual_bg \<and> height (remove_background lib img) = 0 \<longrightarrow>
            process_product_photo lib img manual_bg = Inl ZeroDivisionError)"
proof -
  let ?rb = "remove_background lib img"
  have t: "trim ?rb = ?rb" using assms by (simp add: trim_def)
  have dark: "\<not> is_product_white ?rb 200"
    using getbbox_None_opaque[OF assms] by (simp add: is_product_white_alt convert_RGBA_id)
  have flat: "\<exists>r. process_product_photo lib img manual_bg
                    = Inr (r, if manual_bg = Some ''Black'' then ''Black'' else ''White'') \<and>
                  width r = width ?rb + 200 \<and> height r = height ?rb + 200 \<and> mode r = RGB"
    if nc: "\<not> in_image_bg_map manual_bg"
  proof (cases "manual_bg = Some ''White'' \<or> manual_bg = Some ''Black''")
    case False
    then show ?thesis using auto_label[OF nc, of lib img] dark t by auto
  next
    case True
    let ?sub = "pad_safe_zone (trim ?rb)"
    have "capitalize (bg_color_of ?sub manual_bg) = (if manual_bg = Some ''Black'' then ''Black'' else ''White'')"
      using True
      by (auto simp: bg_color_of_def Let_def lower_White lower_Black capitalize_white capitalize_black
            simp del: capitalize.simps)
    then show ?thesis
      using flat_path_result[of lib ?sub manual_bg] by (simp add: process_flat[OF nc] t)
  qed
  have plate: "(0 < height ?rb \<longrightarrow> (\<exists>r. process_product_photo lib img manual_bg = Inr (r, the manual_bg) \<and>
                  width r = width ?rb + 200 \<and> height r = height ?rb + 200 \<and> mode r = RGB)) \<and>
               (height ?rb = 0 \<longrightarrow> process_product_photo lib img manual_bg = Inl ZeroDivisionError)"
    if c: "in_image_bg_map manual_bg"
  proof -
    obtain s key where s: "manual_bg = Some s" "map_of image_bg_map s = Some key"
      using c in_catalog_iff by blast
    have fl: "is_floor s" by (rule catalog_key_floor[OF s(2)])
    show ?thesis
      using plate_path_result[OF fl, of "height ?rb" lib key "pad_safe_zone ?rb"]
      by (auto simp: s process_plate[OF s(2)] t)
  qed
  show ?thesis using t flat plate by blast
qed

lemma blank_bbox: "getbbox (remove_background stub_library blank_image) = None"
  by code_simp

theorem empty_bbox_is_not_reported_witness:
  "getbbox (remove_background stub_library blank_image) = None \<and>
   \<not> isl (process_product_photo stub_library blank_image None) \<and>
   snd (projr (process_product_photo stub_library blank_image None)) = ''White'' \<and>
   width (fst (projr (process_product_photo stub_library blank_image None))) = 202"
proof -
  have nc: "\<not> in_image_bg_map None" by (simp add: in_image_bg_map_def)
  have w: "width (remove_background stub_library blank_image) = 2"
    by (simp add: remove_background_def stub_library_def blank_image_def)
  from empty_bbox_is_not_reported[OF blank_bbox, of None] nc
  obtain r where "process_product_photo stub_library blank_image None = Inr (r, ''White'')"
    "width r = width (remove_background stub_library blank_image) + 200"
    by auto
  then show ?thesis using blank_bbox w by simp
qed

text \<open>
  The claim as stated fails on a fully transparent 2 x 2 raster with no background
  chosen: the call returns a result labelled White.
\<close>

theorem empty_bbox_returns_result_counterexample:
  "getbbox (remove_background stub_library blank_image) = None \<and>
   \<not> isl (process_product_photo stub_library blank_image None) \<and>
   snd (projr (process_product_photo stub_library blank_image None)) = ''White''"
proof -
  have nc: "\<not> in_image_bg_map None" by (simp add: in_image_bg_map_def)
  have d: "\<not> is_product_white (remove_background stub_library blank_image) 200"
    using getbbox_None_opaque[OF blank_bbox] by (simp add: is_product_white_alt convert_RGBA_id)
  from auto_label[OF nc, of stub_library blank_image] d
  obtain r where "process_product_photo stub_library blank_image None = Inr (r, ''White'')"
    by auto
  then show ?thesis using blank_bbox by simp
qed

section \<open>Drop shadows\<close>

text \<open>
  C6: for an RGBA subject of size \<open>(w, h)\<close>, any offset and any blur radius, the raster
  returned by \<open>create_drop_shadow\<close> has width \<open>w + 2 * (4 * blur)\<close> and height
  \<open>h + 2 * (4 * blur)\<close>, whatever the offset, and the returned padding is \<open>4 * blur\<close>.
\<close>

theorem drop_shadow_size:
  assumes "mode im = RGBA"
  shows "width (fst (create_drop_shadow lib im offset color blur)) = width im + 2 * (4 * blur) \<and>
         height (fst (create_drop_shadow lib im offset color blur)) = height im + 2 * (4 * blur) \<and>
         snd (create_drop_shadow lib im offset color blur) = 4 * blur \<and>
         mode (fst (create_drop_shadow lib im offset color blur)) = RGBA"
  using assms
  by (simp add: create_drop_shadow_def has_alpha_def Let_def putalpha_def new_image_def
        blur_plane_def paste_plane_def new_plane_def)

theorem drop_shadow_size_witness:
  "mode centre_dot = RGBA \<and>
   width (fst (create_drop_shadow stub_library centre_dot (- 12, 10) black 35)) = 283 \<and>
   width (fst (create_drop_shadow stub_library centre_dot (0, 4) black 35)) = 283 \<and>
   height (fst (create_drop_shadow stub_library centre_dot (- 12, 10) black 35)) = 283 \<and>
   snd (create_drop_shadow stub_library centre_dot (- 12, 10) black 35) = 140"
proof -
  have h: "mode centre_dot = RGBA" by (simp add: centre_dot_def)
  have s: "width centre_dot = 3" "height centre_dot = 3" by (simp_all add: centre_dot_def)
  show ?thesis
    using h s drop_shadow_size[OF h, of stub_library "(- 12, 10)" black 35]
      drop_shadow_size[OF h, of stub_library "(0, 4)" black 35]
    by simp
qed

section \<open>Scale and anchor of a plate style\<close>

lemma in_catalog_floor: "style \<in> set (map fst image_bg_map) \<Longrightarrow> is_floor style"
  using is_floor_catalog by blast

lemma catalog_has_key:
  assumes "style \<in> set (map fst image_bg_map)"
  shows "\<exists>key. map_of image_bg_map style = Some key"
proof -
  have "map_of image_bg_map style \<noteq> None"
    using assms by (simp add: map_of_eq_None_iff)
  then show ?thesis by auto
qed

lemma process_plate_placement:
  assumes key: "map_of image_bg_map style = Some key"
    and pl: "plate_placement style (width (trim (remove_background lib img)) + 200,
                                    height (trim (remove_background lib img)) + 200)
                                   (width (trim (remove_background lib img)) + 200,
                                    height (trim (remove_background lib img)) + 200)
                                   (height (trim (remove_background lib img))) = Inr pl"
  shows "process_product_photo lib img (Some style) =
           Inr (\<lparr>mode = RGB,
                 width = width (trim (remove_background lib img)) + 200,
                 height = height (trim (remove_background lib img)) + 200,
                 px = plate_pixels lib style
                        (load_background lib key
                           (width (trim (remove_background lib img)) + 200,
                            height (trim (remove_background lib img)) + 200))
                        (resize lib (pad_safe_zone (trim (remove_background lib img))) (p_w pl, p_h pl))
                        (pos_x pl, pos_y pl, paste_y pl)\<rparr>, style)"
proof -
  have fl: "is_floor style" by (rule catalog_key_floor[OF key])
  have sc: "scale pl \<noteq> None"
    using pl by (auto simp: plate_placement_floor[OF fl] anchor_def Let_def split: if_splits)
  then obtain s where s: "scale pl = Some s" by auto
  show ?thesis
    using pl s
    by (simp add: process_plate[OF key] plate_path_def Let_def size_of_def)
qed

text \<open>
  C7, as amended: for every style of the catalog (all are floor styles) and a trimmed
  subject of non-zero height, the subject is resized by
  \<open>scale = int(bg_h * scale_factor) / orig_h\<close>: the target height is truncated to an
  integer before the division. \<open>scale_factor\<close> is 0.65 under the flat-lay flag, 0.45
  under the spotlight flag without it, 0.5 otherwise; both sides of the padded subject
  are multiplied by the one scale and truncated. In \<open>process_product_photo\<close> the
  divisor \<open>orig_h\<close> is the height of the trimmed subject before padding, the background
  is 200 pixels higher, and the compositing stage gets the subject resized so.
\<close>

theorem perspective_scale_of_floor_styles:
  assumes "style \<in> set (map fst image_bg_map)" and "0 < orig_h"
  shows "(\<exists>pl sc. plate_placement style (w, h) (bg_w, bg_h) orig_h = Inr pl \<and>
           scale pl = Some sc \<and>
           sc = f64 (of_int (py_int (f64_mul (f64_of_int (int bg_h))
                      (if is_flat_lay style then f64 (65 / 100)
                       else if is_spotlight style then f64 (45 / 100) else f64 (5 / 10))))
                    / of_nat orig_h) \<and>
           p_w pl = nat (py_int (f64_mul (f64_of_int (int w)) sc)) \<and>
           p_h pl = nat (py_int (f64_mul (f64_of_int (int h)) sc))) \<and>
         (height (trim (remove_background lib img)) = orig_h \<longrightarrow>
            (\<exists>pl key. map_of image_bg_map style = Some key \<and>
               plate_placement style (width (trim (remove_background lib img)) + 200, orig_h + 200)
                  (width (trim (remove_background lib img)) + 200, orig_h + 200) orig_h = Inr pl \<and>
               process_product_photo lib img (Some style) =
                 Inr (\<lparr>mode = RGB,
                       width = width (trim (remove_background lib img)) + 200,
                       height = orig_h + 200,
                       px = plate_pixels lib style
                              (load_background lib key
                                 (width (trim (remove_background lib img)) + 200, orig_h + 200))
                              (resize lib (pad_safe_zone (trim (remove_background lib img)))
                                 (p_w pl, p_h pl))
                              (pos_x pl, pos_y pl, paste_y pl)\<rparr>, style)))"
proof -
  have fl: "is_floor style" by (rule in_catalog_floor[OF assms(1)])
  have 1: "\<exists>pl sc. plate_placement style (w, h) (bg_w, bg_h) orig_h = Inr pl \<and>
           scale pl = Some sc \<and>
           sc = f64 (of_int (py_int (f64_mul (f64_of_int (int bg_h))
                      (if is_flat_lay style then f64 (65 / 100)
                       else if is_spotlight style then f64 (45 / 100) else f64 (5 / 10))))
                    / of_nat orig_h) \<and>
           p_w pl = nat (py_int (f64_mul (f64_of_int (int w)) sc)) \<and>
           p_h pl = nat (py_int (f64_mul (f64_of_int (int h)) sc))"
    using assms(2)
    by (simp add: plate_placement_floor[OF fl] anchor_def Let_def scale_factor_def scaled_def)
  obtain key where key: "map_of image_bg_map style = Some key"
    using catalog_has_key[OF assms(1)] by blast
  have 2: "\<exists>pl key. map_of image_bg_map style = Some key \<and>
               plate_placement style (width (trim (remove_background lib img)) + 200, orig_h + 200)
                  (width (trim (remove_background lib img)) + 200, orig_h + 200) orig_h = Inr pl \<and>
               process_product_photo lib img (Some style) =
                 Inr (\<lparr>mode = RGB,
                       width = width (trim (remove_background lib img)) + 200,
                       height = orig_h + 200,
                       px = plate_pixels lib style
                              (load_background lib key
                                 (width (trim (remove_background lib img)) + 200, orig_h + 200))
                              (resize lib (pad_safe_zone (trim (remove_background lib img)))
                                 (p_w pl, p_h pl))
                              (pos_x pl, pos_y pl, paste_y pl)\<rparr>, style)"
    if h: "height (trim (remove_background lib img)) = orig_h"
  proof -
    obtain pl where pl: "plate_placement style (width (trim (remove_background lib img)) + 200, orig_h + 200)
                  (width (trim (remove_background lib img)) + 200, orig_h + 200) orig_h = Inr pl"
      using assms(2) by (simp add: plate_placement_floor[OF fl])
    show ?thesis
      using process_plate_placement[OF key, of lib img pl] pl key unfolding h by blast
  qed
  show ?thesis using 1 2 by blast
qed

theorem perspective_scale_of_floor_styles_witness:
  "''Wooden Floor'' \<in> set (map fst image_bg_map) \<and> (0::nat) < 150 \<and>
   map_sum id (\<lambda>pl. (scale pl, p_w pl, p_h pl))
       (plate_placement ''Wooden Floor'' (350, 350) (350, 350) 150)
     = Inr (Some (5254199565265579 / 4503599627370496), 408, 408)"
proof -
  have h: "''Wooden Floor'' \<in> set (map fst image_bg_map)" by (simp add: image_bg_map_def)
  have e: "map_sum id (\<lambda>pl. (scale pl, p_w pl, p_h pl))
       (plate_placement ''Wooden Floor'' (350, 350) (350, 350) 150)
     = Inr (Some (5254199565265579 / 4503599627370496), 408, 408)" by code_simp
  show ?thesis
    using h e perspective_scale_of_floor_styles[OF h, where orig_h = 150 and w = 350 and h = 350
        and bg_w = 350 and bg_h = 350]
    by simp
qed

text \<open>
  The claim as stated fails for a subject 199 pixels high on the plate Wooden Floor
  (background height 399): the code scales by \<open>199 / 199 = 1\<close>, the claim's formula
  gives \<open>(399 * 0.5) / 199 = 399 / 398\<close>.
\<close>

theorem scale_truncates_target_height_counterexample:
  "map_sum id scale (plate_placement ''Wooden Floor'' (399, 399) (399, 399) 199) = Inr (Some 1) \<and>
   (399 * scale_factor ''Wooden Floor'') / 199 = (399 / 398 :: rat) \<and>
   map_sum id scale (plate_placement ''Wooden Floor'' (399, 399) (399, 399) 199)
     \<noteq> Inr (Some ((399 * scale_factor ''Wooden Floor'') / 199))"
  by code_simp







section \<open>The catalog has floor styles only\<close>

text \<open>
  C10: every style name of the plate-style catalog \<open>image_bg_map\<close> contains one of
  the substrings Floor, Marble, Studio, Slate, Parquet, so \<open>is_floor\<close> holds for it;
  the branch for a style that is not a floor is not taken: the subject is always
  rescaled and the vertical position is never reset to the centre.
\<close>

theorem catalog_styles_are_floor:
  "\<forall>name \<in> set (map fst image_bg_map).
     is_floor name \<and>
     (\<forall>nsz bsz orig_h pl. plate_placement name nsz bsz orig_h = Inr pl \<longrightarrow>
        scale pl \<noteq> None \<and> paste_y pl = pos_y pl)"
proof
  fix name assume n: "name \<in> set (map fst image_bg_map)"
  have fl: "is_floor name" by (rule in_catalog_floor[OF n])
  have "scale pl \<noteq> None \<and> paste_y pl = pos_y pl"
    if "plate_placement name nsz bsz orig_h = Inr pl" for nsz bsz orig_h pl
    using that fl
    by (auto simp: plate_placement_floor[OF fl] anchor_def Let_def split: if_splits)
  then show "is_floor name \<and>
     (\<forall>nsz bsz orig_h pl. plate_placement name nsz bsz orig_h = Inr pl \<longrightarrow>
        scale pl \<noteq> None \<and> paste_y pl = pos_y pl)"
    using fl by blast
qed

theorem catalog_styles_are_floor_witness:
  "''Natural Daylight Studio'' \<in> set (map fst image_bg_map) \<and> is_floor ''Natural Daylight Studio''"
proof -
  have h: "''Natural Daylight Studio'' \<in> set (map fst image_bg_map)"
    by (simp add: image_bg_map_def)
  show ?thesis using h catalog_styles_are_floor by blast
qed

end
